theory Spec2Isabelle
  imports Main
begin

section \<open>JavaScript values\<close>

text \<open>
  The plugin (\<^verbatim>\<open>src/index.js\<close>) works on loosely typed configuration values. A value is a
  primitive or a reference to an object (an array, a plain object, a function) living in
  a store. Numbers are modelled by the integers and \<open>NaN\<close>, which is all the truthiness
  test and \<^verbatim>\<open>parseInt\<close> need; fractions, infinities, big integers and symbols are left
  out (each is either truthy and not a string, or falsy like \<open>0\<close>).
\<close>

datatype jsnum = NaN | Fin int

datatype jsval =
    JUndefined
  | JNull
  | JBool bool
  | JNum jsnum
  | JStr string
  | JRef nat

text \<open>\<^verbatim>\<open>!layer\<close> is true exactly for the falsy values.\<close>

fun truthy :: "jsval \<Rightarrow> bool" where
  "truthy JUndefined = False"
| "truthy JNull = False"
| "truthy (JBool b) = b"
| "truthy (JNum NaN) = False"
| "truthy (JNum (Fin n)) = (n \<noteq> 0)"
| "truthy (JStr s) = (s \<noteq> [])"
| "truthy (JRef a) = True"

text \<open>\<^verbatim>\<open>a === b\<close>: same type and same value; \<open>NaN\<close> equals nothing; references are
  equal when they point to the same object.\<close>

fun strict_eq :: "jsval \<Rightarrow> jsval \<Rightarrow> bool" where
  "strict_eq (JNum NaN) b = False"
| "strict_eq a (JNum NaN) = False"
| "strict_eq a b = (a = b)"

text \<open>A named group of a regular-expression match, a property read from the
  \<^verbatim>\<open>groups\<close> object and the \<^verbatim>\<open>NextMarker\<close> of a response are each a string or
  \<^verbatim>\<open>undefined\<close> (\<open>None\<close>).\<close>

definition opt_val :: "string option \<Rightarrow> jsval" where
  "opt_val g = (case g of None \<Rightarrow> JUndefined | Some s \<Rightarrow> JStr s)"

definition to_string :: "string option \<Rightarrow> string" where
  "to_string g = (case g of None \<Rightarrow> ''undefined'' | Some s \<Rightarrow> s)"

subsection \<open>The built-in \<^verbatim>\<open>parseInt\<close>\<close>

definition is_white :: "char \<Rightarrow> bool" where
  "is_white c = (c \<in> set [CHR 0x09, CHR 0x0A, CHR 0x0B, CHR 0x0C, CHR 0x0D, CHR 0x20, CHR 0xA0])"

definition digit_of :: "char \<Rightarrow> nat option" where
  "digit_of c =
     (let n = (of_char c :: nat) in
      if 48 \<le> n \<and> n \<le> 57 then Some (n - 48)
      else if 97 \<le> n \<and> n \<le> 122 then Some (n - 87)
      else if 65 \<le> n \<and> n \<le> 90 then Some (n - 55)
      else None)"

definition radix_digit :: "nat \<Rightarrow> char \<Rightarrow> nat option" where
  "radix_digit R c =
     (case digit_of c of None \<Rightarrow> None | Some d \<Rightarrow> if d < R then Some d else None)"

definition digits_value :: "nat \<Rightarrow> string \<Rightarrow> int" where
  "digits_value R Z = foldl (\<lambda>acc c. acc * int R + int (the (radix_digit R c))) 0 Z"

text \<open>\<^verbatim>\<open>parseInt(x)\<close> with no radix: convert to a string, drop leading white space, read
  a sign, a \<^verbatim>\<open>0x\<close> prefix, then the longest run of digits; no digit gives \<open>NaN\<close>.\<close>

definition parseInt :: "string option \<Rightarrow> jsnum" where
  "parseInt x =
     (let S = dropWhile is_white (to_string x);
          neg = (take 1 S = ''-'');
          S1 = (if take 1 S = ''-'' \<or> take 1 S = ''+'' then drop 1 S else S);
          hex = (take 2 S1 = ''0x'' \<or> take 2 S1 = ''0X'');
          R = (if hex then 16 else 10);
          S2 = (if hex then drop 2 S1 else S1);
          Z = takeWhile (\<lambda>c. radix_digit R c \<noteq> None) S2
      in if Z = [] then NaN
         else Fin ((if neg then -1 else 1) * digits_value R Z))"

section \<open>The fixed pattern \<^verbatim>\<open>reg\<close>\<close>

text \<open>
  \<^verbatim>\<open>/^arn:aws:lambda:(?<region>[^:]+):(?<accountId>[^:]+):layer:(?<layerName>[^:]+):serverless-latest-layer-version$/\<close>

  The pattern is anchored at both ends and has no flags. It is matched from left to right:
  a literal is stripped from the front, and \<^verbatim>\<open>[^:]+\<close> takes the longest non-empty run of
  characters other than a colon. Each group is followed by a literal colon, so a shorter
  run can never make a later part match and no backtracking is needed.
\<close>

fun strip_prefix :: "string \<Rightarrow> string \<Rightarrow> string option" where
  "strip_prefix [] s = Some s"
| "strip_prefix (c # cs) [] = None"
| "strip_prefix (c # cs) (d # ds) = (if c = d then strip_prefix cs ds else None)"

definition not_colons :: "string \<Rightarrow> (string \<times> string) option" where
  "not_colons s =
     (let g = takeWhile (\<lambda>c. c \<noteq> CHR '':'') s in
      if g = [] then None else Some (g, dropWhile (\<lambda>c. c \<noteq> CHR '':'') s))"

definition sentinel :: string where
  "sentinel = ''serverless-latest-layer-version''"

text \<open>\<^verbatim>\<open>reg.exec(layer)\<close>: \<open>None\<close> is \<^verbatim>\<open>null\<close>; a match gives the \<^verbatim>\<open>groups\<close> object, an
  association list from group names to the matched substrings.\<close>

definition reg_exec :: "string \<Rightarrow> (string \<times> string) list option" where
  "reg_exec layer =
     (case strip_prefix ''arn:aws:lambda:'' layer of None \<Rightarrow> None | Some s1 \<Rightarrow>
      case not_colons s1 of None \<Rightarrow> None | Some (region, s2) \<Rightarrow>
      case strip_prefix '':'' s2 of None \<Rightarrow> None | Some s3 \<Rightarrow>
      case not_colons s3 of None \<Rightarrow> None | Some (accountId, s4) \<Rightarrow>
      case strip_prefix '':layer:'' s4 of None \<Rightarrow> None | Some s5 \<Rightarrow>
      case not_colons s5 of None \<Rightarrow> None | Some (layerName, s6) \<Rightarrow>
      case strip_prefix ('':'' @ sentinel) s6 of None \<Rightarrow> None | Some s7 \<Rightarrow>
      if s7 = [] then
        Some [(''region'', region), (''accountId'', accountId), (''layerName'', layerName)]
      else None)"

section \<open>The debug sink\<close>

record layer_version =
  Version :: int
  LayerVersionArn :: string

record page =
  LayerVersions :: "layer_version list"
  NextMarker :: "string option"

text \<open>One entry per call of \<^verbatim>\<open>this.debug\<close>, holding the arguments of the call.\<close>

datatype debug_event =
    SkipNotString jsval
  | SkipNoMatch string
  | SkipVersion string
  | Fetching string
  | Result page
  | Latest string layer_version

section \<open>\<^verbatim>\<open>extractLayerName\<close>\<close>

text \<open>
  The first argument is \<^verbatim>\<open>this.serverless.service.provider.region\<close>. The result is the
  returned value (\<open>None\<close> for \<^verbatim>\<open>undefined\<close>) and the debug entries written. The pattern has
  no group named \<^verbatim>\<open>layerVersion\<close>, so the destructuring reads a missing property. The
  assignment \<^verbatim>\<open>layerVersion = 'latest'\<close> is to a variable that is not read again; the model
  keeps the test that guards it, since the next test is its \<^verbatim>\<open>else\<close> branch.
\<close>

definition extractLayerName :: "string \<Rightarrow> jsval \<Rightarrow> string option \<times> debug_event list" where
  "extractLayerName provider_region layer =
     (if \<not> truthy layer then (None, [])
      else case layer of
        JStr s \<Rightarrow>
          (case reg_exec s of
             None \<Rightarrow> (None, [SkipNoMatch s])
           | Some groups \<Rightarrow>
               let region = map_of groups ''region'';
                   accountId = map_of groups ''accountId'';
                   layerName = map_of groups ''layerName'';
                   layerVersion = map_of groups ''layerVersion''
               in if \<not> strict_eq (opt_val layerVersion) (JStr ''?'')
                     \<and> strict_eq (opt_val layerVersion) (JNum (parseInt layerVersion))
                  then (None, [SkipVersion s])
                  else
                    let region = (if strict_eq (opt_val region) (JStr ''?'')
                                  then Some provider_region else region)
                    in (if strict_eq (opt_val accountId) (JStr ''?'')
                        then layerName
                        else Some (''arn:aws:lambda:'' @ to_string region @ '':''
                                   @ to_string accountId @ '':layer:'' @ to_string layerName),
                        []))
      | other \<Rightarrow> (None, [SkipNotString other]))"

section \<open>The store\<close>

text \<open>
  The arrays of the configuration trees live in a store: \<open>h a = Some xs\<close> says that the
  object at address \<open>a\<close> is an array with the elements \<open>xs\<close>, and \<open>h a = None\<close> that it is
  not an array. Arrays are dense, as arrays read from YAML or JSON are. Two entries of the
  list handed to \<^verbatim>\<open>update\<close> may be the same array.
\<close>

type_synonym heap = "nat \<Rightarrow> jsval list option"

text \<open>\<^verbatim>\<open>Array.isArray(layers)\<close>, giving the address and the elements of the array.\<close>

definition array_of :: "heap \<Rightarrow> jsval \<Rightarrow> (nat \<times> jsval list) option" where
  "array_of h v =
     (case v of
        JRef a \<Rightarrow> (case h a of None \<Rightarrow> None | Some xs \<Rightarrow> Some (a, xs))
      | other \<Rightarrow> None)"

definition isArray :: "heap \<Rightarrow> jsval \<Rightarrow> bool" where
  "isArray h v = (array_of h v \<noteq> None)"

text \<open>A listener is the closure \<^verbatim>\<open>(newLayer) => { layers[index] = newLayer; }\<close>: it holds
  the array and the index.\<close>

type_synonym slot = "nat \<times> nat"

text \<open>\<^verbatim>\<open>layers[index] = v\<close>; an index past the end extends the array.\<close>

definition array_set :: "jsval list \<Rightarrow> nat \<Rightarrow> jsval \<Rightarrow> jsval list" where
  "array_set xs i v =
     (if i < length xs then xs[i := v]
      else xs @ replicate (i - length xs) JUndefined @ [v])"

definition listener :: "slot \<Rightarrow> string \<Rightarrow> heap \<Rightarrow> heap" where
  "listener l newLayer h =
     (case h (fst l) of
        None \<Rightarrow> h
      | Some layers \<Rightarrow> h(fst l \<mapsto> array_set layers (snd l) (JStr newLayer)))"

definition read_slot :: "heap \<Rightarrow> slot \<Rightarrow> jsval option" where
  "read_slot h l =
     (case h (fst l) of
        None \<Rightarrow> None
      | Some layers \<Rightarrow> if snd l < length layers then Some (layers ! snd l) else None)"

section \<open>Errors\<close>

text \<open>\<open>TypeError\<close> and \<open>Error\<close> carry their message; \<open>RequestFailed\<close> is the reason of a
  rejected \<^verbatim>\<open>provider.request\<close>.\<close>

datatype error = TypeError string | Error string | RequestFailed string

section \<open>\<^verbatim>\<open>layerAssociation\<close>\<close>

text \<open>
  \<^verbatim>\<open>const layerAssociation = {}\<close> is a plain object: its own properties, in the order of
  their creation, are an association list. A property read that finds no own property
  goes on to \<^verbatim>\<open>Object.prototype\<close>, whose properties are all objects without a \<^verbatim>\<open>push\<close>
  method.
\<close>

type_synonym assoc = "(string \<times> slot list) list"

definition object_prototype_keys :: "string list" where
  "object_prototype_keys =
     [''constructor'', ''__defineGetter__'', ''__defineSetter__'', ''hasOwnProperty'',
      ''__lookupGetter__'', ''__lookupSetter__'', ''isPrototypeOf'',
      ''propertyIsEnumerable'', ''toString'', ''valueOf'', ''__proto__'',
      ''toLocaleString'']"

text \<open>Lines 50 to 55: read \<^verbatim>\<open>layerAssociation[layerName]\<close>, then create the property or
  push onto the value read.\<close>

definition associate :: "string \<Rightarrow> slot \<Rightarrow> assoc \<Rightarrow> error + assoc" where
  "associate layerName l la =
     (case map_of la layerName of
        Some listeners \<Rightarrow>
          Inr (map (\<lambda>e. if fst e = layerName then (fst e, snd e @ [l]) else e) la)
      | None \<Rightarrow>
          if layerName \<in> set object_prototype_keys
          then Inl (TypeError ''listeners.push is not a function'')
          else Inr (la @ [(layerName, [l])]))"

text \<open>\<^verbatim>\<open>layers.forEach((layer, index) => ...)\<close> on the array at address \<open>a\<close>, from \<open>index\<close>
  on. A throw in the callback ends the loop.\<close>

fun forEach :: "string \<Rightarrow> nat \<Rightarrow> jsval list \<Rightarrow> nat \<Rightarrow> assoc
                \<Rightarrow> (error + assoc) \<times> debug_event list" where
  "forEach region a [] index la = (Inr la, [])"
| "forEach region a (layer # rest) index la =
     (case extractLayerName region layer of (layerName, d) \<Rightarrow>
        if \<not> truthy (opt_val layerName)
        then (case forEach region a rest (Suc index) la of (r, d') \<Rightarrow> (r, d @ d'))
        else
          (case associate (to_string layerName) (a, index) la of
             Inl e \<Rightarrow> (Inl e, d)
           | Inr la' \<Rightarrow>
               (case forEach region a rest (Suc index) la' of (r, d') \<Rightarrow> (r, d @ d'))))"

text \<open>\<^verbatim>\<open>for (const layers of layersList)\<close>, lines 37 to 58.\<close>

fun group_all :: "string \<Rightarrow> heap \<Rightarrow> jsval list \<Rightarrow> assoc
                  \<Rightarrow> (error + assoc) \<times> debug_event list" where
  "group_all region h [] la = (Inr la, [])"
| "group_all region h (layers # rest) la =
     (case array_of h layers of
        None \<Rightarrow> group_all region h rest la
      | Some (a, xs) \<Rightarrow>
          (case forEach region a xs 0 la of
             (Inl e, d) \<Rightarrow> (Inl e, d)
           | (Inr la', d) \<Rightarrow>
               (case group_all region h rest la' of (r, d') \<Rightarrow> (r, d @ d'))))"

text \<open>\<^verbatim>\<open>Object.entries\<close> lists the keys that are array indices first, in ascending
  numeric order, then the other keys in the order of their creation.\<close>

definition is_array_index :: "string \<Rightarrow> bool" where
  "is_array_index k =
     (k \<noteq> [] \<and> list_all (\<lambda>c. radix_digit 10 c \<noteq> None) k
      \<and> (k = ''0'' \<or> take 1 k \<noteq> ''0'')
      \<and> digits_value 10 k < 4294967295)"

definition object_entries :: "assoc \<Rightarrow> assoc" where
  "object_entries la =
     sort_key (\<lambda>e. digits_value 10 (fst e)) (filter (\<lambda>e. is_array_index (fst e)) la)
     @ filter (\<lambda>e. \<not> is_array_index (fst e)) la"

section \<open>\<^verbatim>\<open>processLayers\<close>\<close>

text \<open>
  \<^verbatim>\<open>provider.request("Lambda", "listLayerVersions", {LayerName, Marker})\<close> is a function
  of its parameters: a response page, or the reason of the rejection.
\<close>

type_synonym provider = "string \<Rightarrow> string option \<Rightarrow> error + page"

type_synonym call = "string \<times> string option"

text \<open>The body of the loop over \<^verbatim>\<open>result.LayerVersions\<close>, lines 89 to 94.\<close>

definition pick :: "layer_version option \<Rightarrow> layer_version \<Rightarrow> layer_version option" where
  "pick latestVersion version =
     (case latestVersion of
        None \<Rightarrow> Some version
      | Some l \<Rightarrow> if Version l > Version version then Some l else Some version)"

text \<open>
  The \<^verbatim>\<open>do ... while (marker)\<close> loop, lines 83 to 96. It may run forever, so it is a
  partial function: \<open>None\<close> says the loop never ends. A finished loop gives the requests
  issued, the debug entries written, and \<^verbatim>\<open>latestVersion\<close> or the rejection.
\<close>

partial_function (option) fetch ::
  "provider \<Rightarrow> string \<Rightarrow> string option \<Rightarrow> layer_version option
   \<Rightarrow> (call list \<times> debug_event list \<times> (error + layer_version option)) option" where
  "fetch req layerName marker latestVersion =
     (case req layerName marker of
        Inl e \<Rightarrow> Some ([(layerName, marker)], [], Inl e)
      | Inr result \<Rightarrow>
          (let latestVersion' = foldl pick latestVersion (LayerVersions result);
               marker' = NextMarker result
           in if truthy (opt_val marker')
              then Option.bind (fetch req layerName marker' latestVersion')
                     (\<lambda>r. Some ((layerName, marker) # fst r, Result result # fst (snd r),
                                 snd (snd r)))
              else Some ([(layerName, marker)], [Result result], Inr latestVersion')))"

declare fetch.simps [code]

record task_result =
  calls :: "call list"
  debug :: "debug_event list"
  writes :: "(slot \<times> string) list"
  thrown :: "error option"

definition finish :: "string \<Rightarrow> slot list
    \<Rightarrow> call list \<times> debug_event list \<times> (error + layer_version option) \<Rightarrow> task_result" where
  "finish layerName listeners r =
     (case snd (snd r) of
        Inl e \<Rightarrow>
          \<lparr>calls = fst r, debug = Fetching layerName # fst (snd r), writes = [],
           thrown = Some e\<rparr>
      | Inr None \<Rightarrow>
          \<lparr>calls = fst r, debug = Fetching layerName # fst (snd r), writes = [],
           thrown = Some (Error (''Lambda layer '' @ layerName @ '' has no version available.''))\<rparr>
      | Inr (Some latestVersion) \<Rightarrow>
          \<lparr>calls = fst r,
           debug = Fetching layerName # fst (snd r) @ [Latest layerName latestVersion],
           writes = map (\<lambda>l. (l, LayerVersionArn latestVersion)) listeners,
           thrown = None\<rparr>)"

text \<open>\<open>None\<close>: the task never finishes.\<close>

definition processLayers :: "provider \<Rightarrow> string \<Rightarrow> slot list \<Rightarrow> task_result option" where
  "processLayers req layerName listeners =
     map_option (finish layerName listeners) (fetch req layerName None None)"

section \<open>\<^verbatim>\<open>update\<close>\<close>

text \<open>
  \<^verbatim>\<open>Promise.all\<close> starts one task per entry. The tasks share nothing but the store, a
  settled task is never cancelled, and the requests are a function of their parameters,
  so each task is run on its own. The field \<open>store\<close> is the store once every task has
  settled: the store with the writes of every finished task applied (in the order of the
  entries; any other order gives the same store, see \<open>store_schedule_independent\<close>). It
  is not the store at the moment the promise of \<^verbatim>\<open>update\<close> settles, which depends on the
  order of the responses and is given by \<open>update_until_settled\<close> below. The field
  \<open>settled\<close> says whether the promise rejects (with the error of the first throwing task
  in the order of the entries; which error comes first in time is again a matter of the
  schedule), stays pending, or is fulfilled.
\<close>

datatype promise = Fulfilled | Rejected error | Pending

fun first_thrown :: "task_result option list \<Rightarrow> error option" where
  "first_thrown [] = None"
| "first_thrown (None # ts) = first_thrown ts"
| "first_thrown (Some t # ts) =
     (case thrown t of Some e \<Rightarrow> Some e | None \<Rightarrow> first_thrown ts)"

definition promise_all :: "task_result option list \<Rightarrow> promise" where
  "promise_all ts =
     (case first_thrown ts of
        Some e \<Rightarrow> Rejected e
      | None \<Rightarrow> if None \<in> set ts then Pending else Fulfilled)"

definition all_writes :: "task_result option list \<Rightarrow> (slot \<times> string) list" where
  "all_writes ts = concat (map (\<lambda>t. case t of None \<Rightarrow> [] | Some r \<Rightarrow> writes r) ts)"

definition apply_writes :: "(slot \<times> string) list \<Rightarrow> heap \<Rightarrow> heap" where
  "apply_writes ws h = foldl (\<lambda>h' w. listener (fst w) (snd w) h') h ws"

definition run_tasks :: "provider \<Rightarrow> assoc \<Rightarrow> (string \<times> task_result option) list" where
  "run_tasks req la =
     map (\<lambda>e. (fst e, processLayers req (fst e) (snd e))) (object_entries la)"

record update_result =
  settled :: promise
  groups :: assoc
  tasks :: "(string \<times> task_result option) list"
  store :: heap
  log :: "debug_event list"

definition update :: "string \<Rightarrow> provider \<Rightarrow> heap \<Rightarrow> jsval list \<Rightarrow> update_result" where
  "update region req h layersList =
     (case group_all region h layersList [] of
        (Inl e, d) \<Rightarrow>
          \<lparr>settled = Rejected e, groups = [], tasks = [], store = h, log = d\<rparr>
      | (Inr la, d) \<Rightarrow>
          (let ts = run_tasks req la
           in \<lparr>settled = promise_all (map snd ts), groups = la, tasks = ts,
               store = apply_writes (all_writes (map snd ts)) h, log = d\<rparr>))"

section \<open>The pass in time\<close>

text \<open>
  \<^verbatim>\<open>await Promise.all(...)\<close> settles as soon as one task throws, or when every task has
  finished; the other tasks are neither cancelled nor waited for. What the caller of
  \<^verbatim>\<open>update\<close> sees when the call returns or fails is therefore the store at that moment.

  Each task is suspended at \<^verbatim>\<open>await this.provider.request(...)\<close>. A schedule is the order
  in which the responses arrive: each element is the position, in the order of the
  entries, of the task that is resumed next. The resumed task runs up to its next
  request, or to its end. An element that names no suspended task is skipped.
\<close>

datatype status = Running | Finished | Threw error

text \<open>A task of \<^verbatim>\<open>processLayers\<close>: its arguments, the variables \<^verbatim>\<open>marker\<close> and
  \<^verbatim>\<open>latestVersion\<close>, and where it stands.\<close>

record task =
  task_layerName :: string
  task_listeners :: "slot list"
  task_marker :: "string option"
  task_latestVersion :: "layer_version option"
  task_status :: status

text \<open>The task gets the response to its pending request: one turn of the loop of lines 83
  to 96 and, when no marker came back, lines 98 to 107.\<close>

definition resume :: "provider \<Rightarrow> task \<Rightarrow> heap \<Rightarrow> task \<times> heap" where
  "resume req t h =
     (case req (task_layerName t) (task_marker t) of
        Inl e \<Rightarrow> (t\<lparr>task_status := Threw e\<rparr>, h)
      | Inr result \<Rightarrow>
          (let latestVersion' = foldl pick (task_latestVersion t) (LayerVersions result);
               marker' = NextMarker result
           in if truthy (opt_val marker')
              then (t\<lparr>task_marker := marker', task_latestVersion := latestVersion'\<rparr>, h)
              else
                (case latestVersion' of
                   None \<Rightarrow>
                     (t\<lparr>task_marker := marker', task_latestVersion := latestVersion',
                        task_status := Threw (Error (''Lambda layer '' @ task_layerName t
                                                     @ '' has no version available.''))\<rparr>, h)
                 | Some v \<Rightarrow>
                     (t\<lparr>task_marker := marker', task_latestVersion := latestVersion',
                        task_status := Finished\<rparr>,
                      apply_writes (map (\<lambda>l. (l, LayerVersionArn v)) (task_listeners t)) h))))"

record pass =
  pass_store :: heap
  pass_tasks :: "task list"

definition step :: "provider \<Rightarrow> nat \<Rightarrow> pass \<Rightarrow> pass" where
  "step req i p =
     (if i < length (pass_tasks p) \<and> task_status (pass_tasks p ! i) = Running
      then (case resume req (pass_tasks p ! i) (pass_store p) of
              (t', h') \<Rightarrow> \<lparr>pass_store = h', pass_tasks = (pass_tasks p)[i := t']\<rparr>)
      else p)"

fun thrown_first :: "task list \<Rightarrow> error option" where
  "thrown_first [] = None"
| "thrown_first (t # ts) =
     (case task_status t of Threw e \<Rightarrow> Some e | other \<Rightarrow> thrown_first ts)"

text \<open>The state of the promise of \<^verbatim>\<open>Promise.all\<close>.\<close>

definition settled_of :: "task list \<Rightarrow> promise" where
  "settled_of ts =
     (case thrown_first ts of
        Some e \<Rightarrow> Rejected e
      | None \<Rightarrow> if list_all (\<lambda>t. task_status t = Finished) ts then Fulfilled else Pending)"

text \<open>The responses arrive in the order of the schedule until the promise settles.\<close>

fun await_all :: "provider \<Rightarrow> nat list \<Rightarrow> pass \<Rightarrow> pass" where
  "await_all req [] p = p"
| "await_all req (i # schedule) p =
     (if settled_of (pass_tasks p) \<noteq> Pending then p
      else await_all req schedule (step req i p))"

text \<open>The call \<^verbatim>\<open>this.processLayers(layerName, listeners)\<close> up to its first request.\<close>

definition start :: "string \<times> slot list \<Rightarrow> task" where
  "start e =
     \<lparr>task_layerName = fst e, task_listeners = snd e, task_marker = None,
      task_latestVersion = None, task_status = Running\<rparr>"

record settled_pass =
  at_settled :: promise
  at_store :: heap
  at_tasks :: "task list"

text \<open>\<^verbatim>\<open>update\<close> up to the moment its promise settles (or up to the end of the schedule,
  with the promise still pending).\<close>

definition update_until_settled ::
  "string \<Rightarrow> provider \<Rightarrow> heap \<Rightarrow> jsval list \<Rightarrow> nat list \<Rightarrow> settled_pass" where
  "update_until_settled region req h layersList schedule =
     (case group_all region h layersList [] of
        (Inl e, d) \<Rightarrow> \<lparr>at_settled = Rejected e, at_store = h, at_tasks = []\<rparr>
      | (Inr la, d) \<Rightarrow>
          (let p = await_all req schedule
                     \<lparr>pass_store = h, pass_tasks = map start (object_entries la)\<rparr>
           in \<lparr>at_settled = settled_of (pass_tasks p), at_store = pass_store p,
               at_tasks = pass_tasks p\<rparr>))"

section \<open>Notions used in the statements\<close>

text \<open>A component of a reference: not empty, no colon.\<close>

definition colon_free :: "string \<Rightarrow> bool" where
  "colon_free s = (s \<noteq> [] \<and> CHR '':'' \<notin> set s)"

text \<open>The reference with region \<open>r\<close>, account \<open>a\<close>, layer name \<open>n\<close> and version \<open>v\<close>.\<close>

definition layer_ref :: "string \<Rightarrow> string \<Rightarrow> string \<Rightarrow> string \<Rightarrow> string" where
  "layer_ref r a n v = ''arn:aws:lambda:'' @ r @ '':'' @ a @ '':layer:'' @ n @ '':'' @ v"

text \<open>The text after the last colon of a reference.\<close>

definition version_component :: "string \<Rightarrow> string" where
  "version_component s = rev (takeWhile (\<lambda>c. c \<noteq> CHR '':'') (rev s))"

text \<open>A version written as a decimal number.\<close>

definition numeric :: "string \<Rightarrow> bool" where
  "numeric d = (d \<noteq> [] \<and> list_all (\<lambda>c. radix_digit 10 c \<noteq> None) d)"

text \<open>\<^verbatim>\<open>if (!layerName) return;\<close> in \<^verbatim>\<open>update\<close>: the element takes part in the pass.\<close>

definition eligible :: "string \<Rightarrow> jsval \<Rightarrow> bool" where
  "eligible region v = truthy (opt_val (fst (extractLayerName region v)))"

text \<open>
  The provider answers the requests for \<open>layerName\<close>, starting with \<open>marker\<close>, with the
  pages \<open>ps\<close>: every page but the last carries a marker that the loop takes as one, and the
  next request made with that marker gets the next page.
\<close>

fun serves :: "provider \<Rightarrow> string \<Rightarrow> string option \<Rightarrow> page list \<Rightarrow> bool" where
  "serves req layerName marker [] = False"
| "serves req layerName marker (p # ps) =
     (req layerName marker = Inr p
      \<and> (if truthy (opt_val (NextMarker p)) then serves req layerName (NextMarker p) ps
         else ps = []))"

definition requests :: "string \<Rightarrow> string option \<Rightarrow> page list \<Rightarrow> call list" where
  "requests layerName marker ps =
     (layerName, marker) # map (\<lambda>p. (layerName, NextMarker p)) (butlast ps)"

definition versions_of :: "page list \<Rightarrow> layer_version list" where
  "versions_of ps = concat (map LayerVersions ps)"

text \<open>The last record among those with the greatest version number.\<close>

definition last_max :: "layer_version list \<Rightarrow> layer_version" where
  "last_max vs = last (filter (\<lambda>v. Version v = Max (Version ` set vs)) vs)"

text \<open>The reduction in the words of the specification: a later record overrides the
  current best only when its version number is strictly greater.\<close>

definition spec_pick :: "layer_version option \<Rightarrow> layer_version \<Rightarrow> layer_version option" where
  "spec_pick best v =
     (case best of
        None \<Rightarrow> Some v
      | Some b \<Rightarrow> if Version v > Version b then Some v else Some b)"

definition spec_reduce :: "layer_version list \<Rightarrow> layer_version option" where
  "spec_reduce vs = foldl spec_pick None vs"

text \<open>
  The invariant of the grouping loop: the keys are pairwise distinct, no group is empty,
  and every listener of a group points at an element of an array of the store for which
  \<^verbatim>\<open>extractLayerName\<close> returns the key of the group.
\<close>

definition wf_assoc :: "string \<Rightarrow> heap \<Rightarrow> assoc \<Rightarrow> bool" where
  "wf_assoc region h la =
     (distinct (map fst la)
      \<and> (\<forall>e \<in> set la. snd e \<noteq> []
            \<and> (\<forall>l \<in> set (snd e). \<exists>v. read_slot h l = Some v
                   \<and> fst (extractLayerName region v) = Some (fst e))))"

text \<open>Every group of \<open>la\<close> is still there in \<open>la'\<close>, with at least the same listeners.\<close>

definition grows :: "assoc \<Rightarrow> assoc \<Rightarrow> bool" where
  "grows la la' = (\<forall>e \<in> set la. \<exists>e' \<in> set la'. fst e' = fst e \<and> set (snd e) \<subseteq> set (snd e'))"






subsection \<open>Example inputs\<close>

definition foo_ref :: string where
  "foo_ref = ''arn:aws:lambda:?:123:layer:foo:serverless-latest-layer-version''"

definition two_pages :: "page list" where
  "two_pages =
     [\<lparr>LayerVersions = [\<lparr>Version = 1, LayerVersionArn = ''A1''\<rparr>,
                        \<lparr>Version = 5, LayerVersionArn = ''A5''\<rparr>],
       NextMarker = Some ''m1''\<rparr>,
      \<lparr>LayerVersions = [\<lparr>Version = 3, LayerVersionArn = ''A3''\<rparr>],
       NextMarker = None\<rparr>]"

definition two_page_provider :: provider where
  "two_page_provider layerName marker =
     (if marker = None then Inr (two_pages ! 0)
      else if marker = Some ''m1'' then Inr (two_pages ! 1)
      else Inl (RequestFailed ''unknown marker''))"

definition tie_page :: page where
  "tie_page =
     \<lparr>LayerVersions = [\<lparr>Version = 5, LayerVersionArn = ''A''\<rparr>,
                       \<lparr>Version = 5, LayerVersionArn = ''B''\<rparr>],
      NextMarker = None\<rparr>"

definition tie_provider :: provider where
  "tie_provider layerName marker = Inr tie_page"

definition empty_page :: page where
  "empty_page = \<lparr>LayerVersions = [], NextMarker = None\<rparr>"

definition empty_provider :: provider where
  "empty_provider layerName marker = Inr empty_page"

definition bar_ref :: string where
  "bar_ref = ''arn:aws:lambda:?:?:layer:bar:serverless-latest-layer-version''"

definition constructor_ref :: string where
  "constructor_ref = ''arn:aws:lambda:?:?:layer:constructor:serverless-latest-layer-version''"

definition foo_target :: string where
  "foo_target = ''arn:aws:lambda:us-east-1:123:layer:foo''"

definition example_heap :: heap where
  "example_heap a =
     (if a = 0 then Some [JStr foo_ref, JStr ''plain'', JStr bar_ref]
      else if a = 1 then Some [JStr foo_ref]
      else None)"

definition example_layers :: "jsval list" where
  "example_layers = [JRef 0, JUndefined, JNull, JRef 7, JRef 1]"

definition mixed_provider :: provider where
  "mixed_provider layerName marker =
     (if layerName = ''bar'' then Inr empty_page else two_page_provider layerName marker)"

definition constructor_heap :: heap where
  "constructor_heap a = (if a = 0 then Some [JStr constructor_ref] else None)"

definition plain_heap :: heap where
  "plain_heap a = (if a = 0 then Some [JStr ''plain'', JNum (Fin 7), JNull] else None)"

definition example_pass :: update_result where
  "example_pass = update ''us-east-1'' mixed_provider example_heap example_layers"

definition plain_layers :: "jsval list" where
  "plain_layers = [JRef 0, JUndefined, JNull, JStr ''text'', JRef 7]"


definition foo_first :: settled_pass where
  "foo_first
   = update_until_settled ''us-east-1'' mixed_provider example_heap example_layers [0, 0, 1]"

section \<open>The pattern\<close>

lemma strip_prefix_append: "strip_prefix p (p @ s) = Some s"
  by (induction p) simp_all

lemma strip_prefix_Some: "strip_prefix p s = Some t \<Longrightarrow> s = p @ t"
  by (induction p s rule: strip_prefix.induct) (simp_all split: if_splits)

lemma takeWhile_to_colon:
  "CHR '':'' \<notin> set g \<Longrightarrow> takeWhile (\<lambda>c. c \<noteq> CHR '':'') (g @ CHR '':'' # t) = g"
  by (induction g) auto

lemma dropWhile_to_colon:
  "CHR '':'' \<notin> set g
   \<Longrightarrow> dropWhile (\<lambda>c. c \<noteq> CHR '':'') (g @ CHR '':'' # t) = CHR '':'' # t"
  by (induction g) auto

lemma not_colons_build:
  "colon_free g \<Longrightarrow> not_colons (g @ CHR '':'' # t) = Some (g, CHR '':'' # t)"
  by (simp add: not_colons_def colon_free_def takeWhile_to_colon dropWhile_to_colon Let_def)

lemma not_colons_Some:
  assumes "not_colons s = Some (g, t)"
  shows "s = g @ t \<and> colon_free g"
proof -
  from assms have g: "g = takeWhile (\<lambda>c. c \<noteq> CHR '':'') s"
    and t: "t = dropWhile (\<lambda>c. c \<noteq> CHR '':'') s" and ne: "g \<noteq> []"
    by (auto simp: not_colons_def Let_def split: if_splits)
  have "CHR '':'' \<notin> set g"
    unfolding g by (auto dest: set_takeWhileD)
  with g t ne show ?thesis by (simp add: colon_free_def)
qed

lemma reg_exec_build:
  assumes "colon_free r" "colon_free a" "colon_free n"
  shows "reg_exec (layer_ref r a n sentinel)
         = Some [(''region'', r), (''accountId'', a), (''layerName'', n)]"
proof -
  have 1: "strip_prefix ''arn:aws:lambda:'' (layer_ref r a n sentinel)
           = Some (r @ CHR '':'' # (a @ '':layer:'' @ n @ '':'' @ sentinel))"
    unfolding layer_ref_def by (simp add: strip_prefix_append)
  have 2: "not_colons (r @ CHR '':'' # (a @ '':layer:'' @ n @ '':'' @ sentinel))
           = Some (r, CHR '':'' # (a @ '':layer:'' @ n @ '':'' @ sentinel))"
    using assms(1) by (rule not_colons_build)
  have 3: "not_colons (a @ CHR '':'' # (''layer:'' @ n @ '':'' @ sentinel))
           = Some (a, CHR '':'' # (''layer:'' @ n @ '':'' @ sentinel))"
    using assms(2) by (rule not_colons_build)
  have 4: "not_colons (n @ CHR '':'' # sentinel) = Some (n, CHR '':'' # sentinel)"
    using assms(3) by (rule not_colons_build)
  have 5: "strip_prefix (CHR '':'' # sentinel) (CHR '':'' # sentinel) = Some []"
    using strip_prefix_append [of "CHR '':'' # sentinel" "[]"] by simp
  show ?thesis
    unfolding reg_exec_def using 1 2 3 4 5 by simp
qed

lemma reg_exec_Some:
  assumes "reg_exec s = Some g"
  shows "\<exists>r a n. colon_free r \<and> colon_free a \<and> colon_free n
           \<and> s = layer_ref r a n sentinel
           \<and> g = [(''region'', r), (''accountId'', a), (''layerName'', n)]"
proof -
  from assms obtain s1 r s2 s3 a s4 s5 n s6 where
    p1: "strip_prefix ''arn:aws:lambda:'' s = Some s1" and
    g1: "not_colons s1 = Some (r, s2)" and
    p2: "strip_prefix '':'' s2 = Some s3" and
    g2: "not_colons s3 = Some (a, s4)" and
    p3: "strip_prefix '':layer:'' s4 = Some s5" and
    g3: "not_colons s5 = Some (n, s6)" and
    p4: "strip_prefix ('':'' @ sentinel) s6 = Some []" and
    g: "g = [(''region'', r), (''accountId'', a), (''layerName'', n)]"
    unfolding reg_exec_def
    by (auto split: option.splits prod.splits if_splits)
  note e1 = strip_prefix_Some [OF p1] and e2 = strip_prefix_Some [OF p2]
    and e3 = strip_prefix_Some [OF p3] and e4 = strip_prefix_Some [OF p4]
  note c1 = not_colons_Some [OF g1] and c2 = not_colons_Some [OF g2]
    and c3 = not_colons_Some [OF g3]
  have "s = layer_ref r a n sentinel"
    unfolding layer_ref_def using e1 e2 e3 e4 c1 c2 c3 by simp
  with c1 c2 c3 g show ?thesis by blast
qed

lemma layer_ref_not_empty: "layer_ref r a n v \<noteq> []"
  by (simp add: layer_ref_def)

lemma version_component_layer_ref:
  assumes "CHR '':'' \<notin> set v"
  shows "version_component (layer_ref r a n v) = v"
proof -
  have "rev (layer_ref r a n v)
        = rev v @ CHR '':'' # rev (''arn:aws:lambda:'' @ r @ '':'' @ a @ '':layer:'' @ n)"
    by (simp add: layer_ref_def)
  moreover have "CHR '':'' \<notin> set (rev v)" using assms by simp
  ultimately show ?thesis
    unfolding version_component_def by (simp add: takeWhile_to_colon)
qed

lemma last_layer_ref: "v \<noteq> [] \<Longrightarrow> last (layer_ref r a n v) = last v"
  by (simp add: layer_ref_def)

lemma reg_exec_numeric:
  assumes "numeric d"
  shows "reg_exec (layer_ref r a n d) = None"
proof (rule ccontr)
  assume "reg_exec (layer_ref r a n d) \<noteq> None"
  then obtain g where "reg_exec (layer_ref r a n d) = Some g" by auto
  from reg_exec_Some [OF this] obtain r' a' n'
    where eq: "layer_ref r a n d = layer_ref r' a' n' sentinel" by blast
  from assms have ne: "d \<noteq> []" and dg: "radix_digit 10 (last d) \<noteq> None"
    by (auto simp: numeric_def list_all_iff)
  have "last (layer_ref r a n d) = last d" using ne by (rule last_layer_ref)
  moreover have "last (layer_ref r' a' n' sentinel) = CHR ''n''"
    by (simp add: last_layer_ref sentinel_def)
  ultimately have "last d = CHR ''n''" using eq by simp
  with dg show False by (simp add: radix_digit_def digit_of_def)
qed

section \<open>Properties of \<^verbatim>\<open>extractLayerName\<close>\<close>

lemma strict_eq_opt_num: "strict_eq (opt_val x) (JNum m) = False"
  by (cases x; cases m) (simp_all add: opt_val_def)

lemma strict_eq_opt_str: "strict_eq (opt_val x) (JStr s) = (x = Some s)"
  by (cases x) (simp_all add: opt_val_def)

lemma extractLayerName_match:
  assumes "colon_free r" "colon_free a" "colon_free n"
  shows "extractLayerName region (JStr (layer_ref r a n sentinel))
         = (Some (if a = ''?'' then n
                  else ''arn:aws:lambda:'' @ (if r = ''?'' then region else r)
                       @ '':'' @ a @ '':layer:'' @ n), [])"
  unfolding extractLayerName_def
  by (simp add: layer_ref_not_empty reg_exec_build [OF assms] strict_eq_opt_num
        strict_eq_opt_str to_string_def)

lemma extractLayerName_no_match:
  "reg_exec s = None \<Longrightarrow> fst (extractLayerName region (JStr s)) = None"
  by (simp add: extractLayerName_def)

lemma extractLayerName_not_string:
  "\<forall>s. v \<noteq> JStr s \<Longrightarrow> fst (extractLayerName region v) = None"
  by (cases v) (auto simp: extractLayerName_def)

text \<open>
  C2. For every string that matches the pattern, with the components \<open>r\<close>, \<open>a\<close> and \<open>n\<close>,
  \<^verbatim>\<open>extractLayerName\<close> returns the bare layer name when the account is \<^verbatim>\<open>?\<close>, and otherwise
  the reference rebuilt without its version, with the deployment region in place of a
  region \<^verbatim>\<open>?\<close>.
\<close>

theorem extractLayerName_target:
  assumes "reg_exec s = Some g"
  shows "\<exists>r a n. s = layer_ref r a n sentinel
           \<and> g = [(''region'', r), (''accountId'', a), (''layerName'', n)]
           \<and> fst (extractLayerName region (JStr s))
             = Some (if a = ''?'' then n
                     else ''arn:aws:lambda:'' @ (if r = ''?'' then region else r)
                          @ '':'' @ a @ '':layer:'' @ n)"
proof -
  from reg_exec_Some [OF assms] obtain r a n where
    c: "colon_free r" "colon_free a" "colon_free n" and
    s: "s = layer_ref r a n sentinel" and
    g: "g = [(''region'', r), (''accountId'', a), (''layerName'', n)]"
    by blast
  from extractLayerName_match [OF c, of region] s g show ?thesis by auto
qed

lemma reg_exec_foo_ref:
  "reg_exec foo_ref
   = Some [(''region'', ''?''), (''accountId'', ''123''), (''layerName'', ''foo'')]"
proof -
  have e: "foo_ref = layer_ref ''?'' ''123'' ''foo'' sentinel"
    by (simp add: foo_ref_def layer_ref_def sentinel_def)
  have c: "colon_free ''?''" "colon_free ''123''" "colon_free ''foo''"
    by (simp_all add: colon_free_def)
  show ?thesis unfolding e by (rule reg_exec_build [OF c])
qed

theorem extractLayerName_target_witness:
  "reg_exec foo_ref
     = Some [(''region'', ''?''), (''accountId'', ''123''), (''layerName'', ''foo'')]
   \<and> fst (extractLayerName ''us-east-1'' (JStr foo_ref))
     = Some ''arn:aws:lambda:us-east-1:123:layer:foo''"
  using extractLayerName_target [OF reg_exec_foo_ref, of "''us-east-1''"] reg_exec_foo_ref
  by auto

text \<open>
  C9. Every string that matches the pattern ends in the sentinel version; no call of
  \<^verbatim>\<open>extractLayerName\<close>, on any value, takes the branch that skips an explicit version; and
  for a matched string the function returns a non-empty target and writes no debug
  entry.
\<close>

theorem matched_always_eligible:
  assumes "reg_exec s = Some g"
  shows "version_component s = sentinel
         \<and> SkipVersion x \<notin> set (snd (extractLayerName region v))
         \<and> (\<exists>t. t \<noteq> [] \<and> extractLayerName region (JStr s) = (Some t, []))
         \<and> eligible region (JStr s)"
proof -
  from reg_exec_Some [OF assms] obtain r a n where
    c: "colon_free r" "colon_free a" "colon_free n" and
    s: "s = layer_ref r a n sentinel"
    by blast
  have 1: "version_component s = sentinel"
    unfolding s by (rule version_component_layer_ref) (simp add: sentinel_def)
  have 2: "SkipVersion x \<notin> set (snd (extractLayerName region v))"
    by (cases v)
       (auto simp: extractLayerName_def strict_eq_opt_num Let_def split: option.splits)
  have 3: "\<exists>t. t \<noteq> [] \<and> extractLayerName region (JStr s) = (Some t, [])"
    unfolding s using c by (auto simp: extractLayerName_match colon_free_def)
  then have 4: "eligible region (JStr s)"
    by (auto simp: eligible_def opt_val_def)
  from 1 2 3 4 show ?thesis by blast
qed

theorem matched_always_eligible_witness:
  "reg_exec foo_ref
     = Some [(''region'', ''?''), (''accountId'', ''123''), (''layerName'', ''foo'')]
   \<and> version_component foo_ref = sentinel
   \<and> extractLayerName ''us-east-1'' (JStr foo_ref)
     = (Some ''arn:aws:lambda:us-east-1:123:layer:foo'', [])
   \<and> eligible ''us-east-1'' (JStr foo_ref)"
proof -
  have e: "foo_ref = layer_ref ''?'' ''123'' ''foo'' sentinel"
    by (simp add: foo_ref_def layer_ref_def sentinel_def)
  have c: "colon_free ''?''" "colon_free ''123''" "colon_free ''foo''"
    by (simp_all add: colon_free_def)
  have "extractLayerName ''us-east-1'' (JStr foo_ref)
        = (Some ''arn:aws:lambda:us-east-1:123:layer:foo'', [])"
    unfolding e by (simp add: extractLayerName_match [OF c])
  with matched_always_eligible [OF reg_exec_foo_ref, of undefined "''us-east-1''" JNull]
    reg_exec_foo_ref
  show ?thesis by simp
qed

text \<open>
  C10. For the empty string and for the falsy values \<^verbatim>\<open>null\<close>, \<^verbatim>\<open>undefined\<close>, \<^verbatim>\<open>false\<close>, \<^verbatim>\<open>0\<close>
  (and \<^verbatim>\<open>NaN\<close>), \<^verbatim>\<open>extractLayerName\<close> returns \<^verbatim>\<open>undefined\<close> and writes nothing to the debug
  sink.
\<close>

theorem falsy_not_eligible_silent:
  "extractLayerName region (JStr '''') = (None, [])
   \<and> extractLayerName region JNull = (None, [])
   \<and> extractLayerName region JUndefined = (None, [])
   \<and> extractLayerName region (JBool False) = (None, [])
   \<and> extractLayerName region (JNum (Fin 0)) = (None, [])
   \<and> extractLayerName region (JNum NaN) = (None, [])"
  by (simp add: extractLayerName_def)

section \<open>The paging loop\<close>

lemma fetch_serves:
  "serves req layerName marker ps \<Longrightarrow>
   fetch req layerName marker latest
   = Some (requests layerName marker ps, map Result ps,
           Inr (foldl pick latest (versions_of ps)))"
proof (induction ps arbitrary: marker latest)
  case Nil
  then show ?case by simp
next
  case (Cons p ps)
  from Cons.prems have rq: "req layerName marker = Inr p" by simp
  show ?case
  proof (cases "truthy (opt_val (NextMarker p))")
    case True
    with Cons.prems have sv: "serves req layerName (NextMarker p) ps" by simp
    then have ne: "ps \<noteq> []" by (cases ps) simp_all
    have bl: "butlast (p # ps) = p # butlast ps" using ne by simp
    show ?thesis
      by (subst fetch.simps)
         (simp add: rq True Cons.IH [OF sv] requests_def versions_of_def bl
            del: butlast.simps)
  next
    case False
    with Cons.prems have "ps = []" by simp
    then show ?thesis
      by (subst fetch.simps) (simp add: rq False requests_def versions_of_def)
  qed
qed

lemma length_requests:
  "serves req layerName marker ps \<Longrightarrow> length (requests layerName marker ps) = length ps"
  by (cases ps) (simp_all add: requests_def)

lemma processLayers_serves:
  "serves req layerName None ps \<Longrightarrow>
   processLayers req layerName listeners
   = Some (finish layerName listeners
             (requests layerName None ps, map Result ps,
              Inr (foldl pick None (versions_of ps))))"
  by (simp add: processLayers_def fetch_serves)

lemma calls_finish: "calls (finish layerName listeners r) = fst r"
  by (simp add: finish_def split: sum.splits option.splits)

lemma writes_finish:
  "writes (finish layerName listeners r)
   = (case snd (snd r) of
        Inr (Some v) \<Rightarrow> map (\<lambda>l. (l, LayerVersionArn v)) listeners
      | other \<Rightarrow> [])"
  by (simp add: finish_def split: sum.splits option.splits)

lemma thrown_finish:
  "thrown (finish layerName listeners r)
   = (case snd (snd r) of
        Inl e \<Rightarrow> Some e
      | Inr None \<Rightarrow>
          Some (Error (''Lambda layer '' @ layerName @ '' has no version available.''))
      | Inr (Some v) \<Rightarrow> None)"
  by (simp add: finish_def split: sum.splits option.splits)

lemma thrown_finish_writes:
  "thrown (finish layerName listeners r) \<noteq> None \<Longrightarrow> writes (finish layerName listeners r) = []"
  by (simp add: finish_def split: sum.splits option.splits)

subsection \<open>The reduction over the version records\<close>

lemma filter_max_nonempty:
  assumes "vs \<noteq> []"
  shows "filter (\<lambda>v. Version v = Max (Version ` set vs)) vs \<noteq> []"
proof -
  have "Max (Version ` set vs) \<in> Version ` set vs"
    using assms by (intro Max_in) simp_all
  then obtain v where "v \<in> set vs" "Version v = Max (Version ` set vs)" by auto
  then show ?thesis by (auto simp: filter_empty_conv)
qed

lemma last_max_in_filter:
  assumes "vs \<noteq> []"
  shows "last_max vs \<in> set (filter (\<lambda>v. Version v = Max (Version ` set vs)) vs)"
  unfolding last_max_def using filter_max_nonempty [OF assms] by (rule last_in_set)

lemma Version_last_max: "vs \<noteq> [] \<Longrightarrow> Version (last_max vs) = Max (Version ` set vs)"
  using last_max_in_filter [of vs] by simp

lemma last_max_in_set: "vs \<noteq> [] \<Longrightarrow> last_max vs \<in> set vs"
  using last_max_in_filter [of vs] by simp

lemma last_max_snoc:
  assumes "vs \<noteq> []"
  shows "last_max (vs @ [x])
         = (if Version (last_max vs) > Version x then last_max vs else x)"
proof -
  let ?M = "Max (Version ` set vs)"
  have M': "Max (Version ` set (vs @ [x])) = max (Version x) ?M"
    using assms by (simp add: Max_insert)
  show ?thesis
  proof (cases "?M > Version x")
    case True
    then have m: "max (Version x) ?M = ?M" by simp
    show ?thesis
      using True Version_last_max [OF assms]
      by (simp add: last_max_def M' m del: set_append)
  next
    case False
    then have m: "max (Version x) ?M = Version x" by simp
    show ?thesis
      using False Version_last_max [OF assms]
      by (simp add: last_max_def M' m del: set_append)
  qed
qed

lemma foldl_pick_None:
  "foldl pick None vs = (if vs = [] then None else Some (last_max vs))"
proof (induction vs rule: rev_induct)
  case Nil
  then show ?case by simp
next
  case (snoc x xs)
  show ?case
  proof (cases "xs = []")
    case True
    then show ?thesis by (simp add: pick_def last_max_def)
  next
    case False
    then show ?thesis using snoc by (simp add: pick_def last_max_snoc)
  qed
qed

lemma serves_two_pages: "serves two_page_provider layerName None two_pages"
  by (simp add: two_page_provider_def two_pages_def opt_val_def)

lemma serves_tie_page: "serves tie_provider layerName None [tie_page]"
  by (simp add: tie_provider_def tie_page_def opt_val_def)

lemma serves_empty_page: "serves empty_provider layerName None [empty_page]"
  by (simp add: empty_provider_def empty_page_def opt_val_def)

text \<open>
  C3, as amended. When the provider serves the pages \<open>ps\<close> and they hold at least one
  record, the loop ends with the record of the greatest version number over all the
  pages; among several records with that number it keeps the one seen last, since a
  later record replaces the current best whenever its number is not smaller.
\<close>

theorem latest_is_last_max:
  assumes "serves req layerName None ps" and "versions_of ps \<noteq> []"
  shows "fetch req layerName None None
         = Some (requests layerName None ps, map Result ps,
                 Inr (Some (last_max (versions_of ps))))
         \<and> last_max (versions_of ps) \<in> set (versions_of ps)
         \<and> Version (last_max (versions_of ps)) = Max (Version ` set (versions_of ps))
         \<and> pick (Some l) v = Some (if Version l > Version v then l else v)"
  using assms
  by (simp add: fetch_serves foldl_pick_None last_max_in_set Version_last_max pick_def)

theorem latest_is_last_max_witness:
  "serves two_page_provider ''foo'' None two_pages
   \<and> versions_of two_pages \<noteq> []
   \<and> fetch two_page_provider ''foo'' None None
     = Some ([(''foo'', None), (''foo'', Some ''m1'')], map Result two_pages,
             Inr (Some \<lparr>Version = 5, LayerVersionArn = ''A5''\<rparr>))"
proof -
  have ne: "versions_of two_pages \<noteq> []"
    by (simp add: versions_of_def two_pages_def)
  have lm: "last_max (versions_of two_pages) = \<lparr>Version = 5, LayerVersionArn = ''A5''\<rparr>"
    by (simp add: last_max_def versions_of_def two_pages_def)
  have rq: "requests ''foo'' None two_pages = [(''foo'', None), (''foo'', Some ''m1'')]"
    by (simp add: requests_def two_pages_def)
  from latest_is_last_max [OF serves_two_pages ne, of "''foo''"] serves_two_pages ne lm rq
  show ?thesis by simp
qed

text \<open>
  C3, as stated, fails: on one page with two records of version 5, the loop keeps the
  second record, where a reduction that overrides only on a strictly greater number
  keeps the first.
\<close>

theorem ties_keep_first_counterexample:
  "serves tie_provider ''foo'' None [tie_page]
   \<and> fetch tie_provider ''foo'' None None
     = Some ([(''foo'', None)], [Result tie_page],
             Inr (Some \<lparr>Version = 5, LayerVersionArn = ''B''\<rparr>))
   \<and> spec_reduce (versions_of [tie_page]) = Some \<lparr>Version = 5, LayerVersionArn = ''A''\<rparr>
   \<and> Some \<lparr>Version = 5, LayerVersionArn = ''B''\<rparr> \<noteq> spec_reduce (versions_of [tie_page])"
proof -
  have 1: "fetch tie_provider ''foo'' None None
           = Some ([(''foo'', None)], [Result tie_page],
                   Inr (Some \<lparr>Version = 5, LayerVersionArn = ''B''\<rparr>))"
    by (simp add: fetch_serves [OF serves_tie_page] requests_def versions_of_def
          tie_page_def pick_def)
  have 2: "spec_reduce (versions_of [tie_page])
           = Some \<lparr>Version = 5, LayerVersionArn = ''A''\<rparr>"
    by (simp add: spec_reduce_def spec_pick_def versions_of_def tie_page_def)
  have 3: "Some \<lparr>Version = 5, LayerVersionArn = ''B''\<rparr> \<noteq> spec_reduce (versions_of [tie_page])"
    by (simp add: 2)
  from serves_tie_page [of "''foo''"] 1 2 3 show ?thesis by blast
qed

text \<open>
  C4. When the provider serves \<open>N\<close> pages for a name, each with a marker except the last,
  \<^verbatim>\<open>processLayers\<close> finishes and has issued exactly \<open>N\<close> requests: the first without a
  marker, then one with the marker of each page that carried one, and none after the
  page without a marker.
\<close>

theorem pagination_calls:
  assumes "serves req layerName None ps"
  shows "\<exists>r. processLayers req layerName listeners = Some r
           \<and> calls r = requests layerName None ps
           \<and> length (calls r) = length ps"
  using assms
  by (simp add: processLayers_serves calls_finish length_requests)

theorem pagination_calls_witness:
  "serves two_page_provider ''foo'' None two_pages
   \<and> (\<exists>r. processLayers two_page_provider ''foo'' [(0, 0)] = Some r
          \<and> calls r = [(''foo'', None), (''foo'', Some ''m1'')]
          \<and> length (calls r) = 2)"
proof -
  have rq: "requests ''foo'' None two_pages = [(''foo'', None), (''foo'', Some ''m1'')]"
    by (simp add: requests_def two_pages_def)
  have ln: "length two_pages = 2" by (simp add: two_pages_def)
  from pagination_calls [OF serves_two_pages, of "''foo''" "[(0, 0)]"] serves_two_pages rq ln
  show ?thesis by simp
qed

section \<open>The store after the writes\<close>

lemma read_slot_listener:
  assumes "read_slot h l \<noteq> None"
  shows "read_slot (listener l x h) s = (if s = l then Some (JStr x) else read_slot h s)"
proof -
  obtain a i where l: "l = (a, i)" by (cases l)
  obtain b j where s: "s = (b, j)" by (cases s)
  from assms l obtain xs where h: "h a = Some xs" and i: "i < length xs"
    by (auto simp: read_slot_def split: option.splits if_splits)
  show ?thesis
    using h i by (auto simp: l s read_slot_def listener_def array_set_def)
qed

lemma apply_writes_Cons:
  "apply_writes (w # ws) h = apply_writes ws (listener (fst w) (snd w) h)"
  by (simp add: apply_writes_def)

lemma apply_writes_Nil: "apply_writes [] h = h"
  by (simp add: apply_writes_def)

lemma apply_writes_unwritten:
  "\<forall>w \<in> set ws. read_slot h (fst w) \<noteq> None \<Longrightarrow> s \<notin> fst ` set ws
   \<Longrightarrow> read_slot (apply_writes ws h) s = read_slot h s"
proof (induction ws arbitrary: h)
  case Nil
  then show ?case by (simp add: apply_writes_Nil)
next
  case (Cons w ws)
  let ?h = "listener (fst w) (snd w) h"
  from Cons.prems have v: "read_slot h (fst w) \<noteq> None" and ne: "s \<noteq> fst w" by auto
  have "\<forall>w' \<in> set ws. read_slot ?h (fst w') \<noteq> None"
    using Cons.prems(1) by (simp add: read_slot_listener [OF v])
  moreover have "s \<notin> fst ` set ws" using Cons.prems(2) by simp
  ultimately have "read_slot (apply_writes ws ?h) s = read_slot ?h s" by (rule Cons.IH)
  then show ?case using ne by (simp add: apply_writes_Cons read_slot_listener [OF v])
qed

lemma apply_writes_written:
  "\<forall>w \<in> set ws. read_slot h (fst w) \<noteq> None \<Longrightarrow> s \<in> fst ` set ws
   \<Longrightarrow> \<forall>w \<in> set ws. fst w = s \<longrightarrow> snd w = x
   \<Longrightarrow> read_slot (apply_writes ws h) s = Some (JStr x)"
proof (induction ws arbitrary: h)
  case Nil
  then show ?case by simp
next
  case (Cons w ws)
  let ?h = "listener (fst w) (snd w) h"
  from Cons.prems have v: "read_slot h (fst w) \<noteq> None" by auto
  have valid: "\<forall>w' \<in> set ws. read_slot ?h (fst w') \<noteq> None"
    using Cons.prems(1) by (simp add: read_slot_listener [OF v])
  show ?case
  proof (cases "s \<in> fst ` set ws")
    case True
    have "\<forall>w' \<in> set ws. fst w' = s \<longrightarrow> snd w' = x" using Cons.prems(3) by simp
    with valid True have "read_slot (apply_writes ws ?h) s = Some (JStr x)"
      by (rule Cons.IH)
    then show ?thesis by (simp add: apply_writes_Cons)
  next
    case False
    with Cons.prems(2) have sw: "fst w = s" by auto
    with Cons.prems(3) have x: "snd w = x" by simp
    from valid False have "read_slot (apply_writes ws ?h) s = read_slot ?h s"
      by (rule apply_writes_unwritten)
    moreover have "read_slot ?h s = Some (JStr x)"
      using read_slot_listener [OF v, of "snd w" s] sw x by simp
    ultimately show ?thesis by (simp add: apply_writes_Cons)
  qed
qed

lemma wf_assoc_Nil: "wf_assoc region h []"
  by (simp add: wf_assoc_def)

lemma map_of_None_fst: "map_of la k = None \<Longrightarrow> k \<notin> fst ` set la"
  by (simp add: map_of_eq_None_iff)

lemma associate_wf:
  assumes wf: "wf_assoc region h la"
    and rd: "read_slot h l = Some v"
    and ex: "fst (extractLayerName region v) = Some t"
    and as: "associate t l la = Inr la'"
  shows "wf_assoc region h la'"
proof (cases "map_of la t")
  case None
  with as have la': "la' = la @ [(t, [l])]"
    by (simp add: associate_def split: if_splits)
  from None have "t \<notin> fst ` set la" by (rule map_of_None_fst)
  with wf rd ex show ?thesis
    unfolding wf_assoc_def la' by auto
next
  case (Some ls)
  with as have la': "la' = map (\<lambda>e. if fst e = t then (fst e, snd e @ [l]) else e) la"
    by (simp add: associate_def)
  have keys: "map fst la' = map fst la"
    unfolding la' by (induction la) auto
  have "snd e' \<noteq> [] \<and> (\<forall>l' \<in> set (snd e'). \<exists>v. read_slot h l' = Some v
                \<and> fst (extractLayerName region v) = Some (fst e'))"
    if e': "e' \<in> set la'" for e'
  proof -
    from e' have "e' \<in> (\<lambda>e. if fst e = t then (fst e, snd e @ [l]) else e) ` set la"
      unfolding la' by (simp only: set_map)
    then obtain e where e: "e \<in> set la"
      and e'_eq: "e' = (if fst e = t then (fst e, snd e @ [l]) else e)"
      by blast
    from wf e have old: "snd e \<noteq> []"
      "\<forall>l' \<in> set (snd e). \<exists>v. read_slot h l' = Some v
          \<and> fst (extractLayerName region v) = Some (fst e)"
      by (auto simp: wf_assoc_def)
    show ?thesis
    proof (cases "fst e = t")
      case True
      with e'_eq old rd ex show ?thesis by auto
    next
      case False
      with e'_eq old show ?thesis by simp
    qed
  qed
  with wf keys show ?thesis by (simp add: wf_assoc_def)
qed

lemma forEach_wf:
  "wf_assoc region h la \<Longrightarrow> h a = Some xs \<Longrightarrow> layers = drop index xs
   \<Longrightarrow> forEach region a layers index la = (Inr la', d) \<Longrightarrow> wf_assoc region h la'"
proof (induction layers arbitrary: index la d)
  case Nil
  then show ?case by simp
next
  case (Cons layer rest)
  from Cons.prems(3) have idx: "index < length xs"
    by (metis drop_all list.distinct(1) not_le)
  from Cons.prems(3) have layer: "xs ! index = layer"
    by (metis Cons_nth_drop_Suc idx list.sel(1))
  from Cons.prems(3) have rest: "rest = drop (Suc index) xs"
    by (metis Cons_nth_drop_Suc idx list.sel(3))
  have rd: "read_slot h (a, index) = Some layer"
    using Cons.prems(2) idx layer by (simp add: read_slot_def)
  obtain layerName d0 where ex: "extractLayerName region layer = (layerName, d0)"
    by (cases "extractLayerName region layer")
  show ?case
  proof (cases "truthy (opt_val layerName)")
    case False
    with Cons.prems(4) ex obtain d' where
      "forEach region a rest (Suc index) la = (Inr la', d')"
      by (auto split: prod.splits)
    with Cons.IH [OF Cons.prems(1) Cons.prems(2) rest] show ?thesis by blast
  next
    case True
    then obtain t where t: "layerName = Some t"
      by (cases layerName) (simp_all add: opt_val_def)
    with Cons.prems(4) ex True obtain la1 d' where
      as: "associate t (a, index) la = Inr la1" and
      fe: "forEach region a rest (Suc index) la1 = (Inr la', d')"
      by (auto simp: to_string_def split: prod.splits sum.splits)
    have "fst (extractLayerName region layer) = Some t" using ex t by simp
    with Cons.prems(1) rd have "wf_assoc region h la1" using as by (rule associate_wf)
    from Cons.IH [OF this Cons.prems(2) rest fe] show ?thesis .
  qed
qed

lemma group_all_wf:
  "wf_assoc region h la \<Longrightarrow> group_all region h layersList la = (Inr la', d)
   \<Longrightarrow> wf_assoc region h la'"
proof (induction layersList arbitrary: la d)
  case Nil
  then show ?case by simp
next
  case (Cons layers rest)
  show ?case
  proof (cases "array_of h layers")
    case None
    with Cons show ?thesis by simp
  next
    case (Some p)
    obtain a xs where p: "p = (a, xs)" by (cases p)
    with Some have h: "h a = Some xs"
      by (auto simp: array_of_def split: jsval.splits option.splits)
    from Cons.prems(2) Some p obtain la1 d1 d2 where
      fe: "forEach region a xs 0 la = (Inr la1, d1)" and
      ga: "group_all region h rest la1 = (Inr la', d2)"
      by (auto split: prod.splits sum.splits)
    have "wf_assoc region h la1"
      using Cons.prems(1) h _ fe by (rule forEach_wf) simp
    from Cons.IH [OF this ga] show ?thesis .
  qed
qed

section \<open>The tasks of a pass\<close>

lemma set_object_entries: "set (object_entries la) = set la"
  by (auto simp: object_entries_def)

lemma set_run_tasks:
  "set (run_tasks req la) = (\<lambda>e. (fst e, processLayers req (fst e) (snd e))) ` set la"
  by (simp add: run_tasks_def set_object_entries)

lemma set_all_writes:
  "set (all_writes ts) = {w. \<exists>r. Some r \<in> set ts \<and> w \<in> set (writes r)}"
  by (auto simp: all_writes_def split: option.splits)

lemma in_all_writes_run_tasks:
  "w \<in> set (all_writes (map snd (run_tasks req la)))
   \<longleftrightarrow> (\<exists>e \<in> set la. \<exists>r. processLayers req (fst e) (snd e) = Some r \<and> w \<in> set (writes r))"
proof -
  have ts: "set (map snd (run_tasks req la))
            = (\<lambda>e. processLayers req (fst e) (snd e)) ` set la"
    by (simp add: set_run_tasks image_image)
  show ?thesis
  proof
    assume "w \<in> set (all_writes (map snd (run_tasks req la)))"
    then obtain r where r: "Some r \<in> set (map snd (run_tasks req la))"
      and w: "w \<in> set (writes r)"
      unfolding set_all_writes by blast
    from r obtain e where "e \<in> set la" "Some r = processLayers req (fst e) (snd e)"
      unfolding ts by blast
    with w show "\<exists>e \<in> set la. \<exists>r. processLayers req (fst e) (snd e) = Some r
                   \<and> w \<in> set (writes r)"
      by metis
  next
    assume "\<exists>e \<in> set la. \<exists>r. processLayers req (fst e) (snd e) = Some r
              \<and> w \<in> set (writes r)"
    then obtain e r where e: "e \<in> set la"
      and p: "processLayers req (fst e) (snd e) = Some r" and w: "w \<in> set (writes r)"
      by blast
    from e p have "Some r \<in> set (map snd (run_tasks req la))"
      unfolding ts by force
    with w show "w \<in> set (all_writes (map snd (run_tasks req la)))"
      unfolding set_all_writes by blast
  qed
qed

lemma processLayers_Some:
  assumes "processLayers req t ls = Some r"
  shows "\<exists>cs ds res. fetch req t None None = Some (cs, ds, res) \<and> r = finish t ls (cs, ds, res)"
  using assms by (auto simp: processLayers_def)

lemma processLayers_writes:
  assumes "processLayers req t ls = Some r"
  shows "(thrown r \<noteq> None \<and> writes r = [])
         \<or> (thrown r = None
            \<and> (\<exists>cs ds v. fetch req t None None = Some (cs, ds, Inr (Some v))
                  \<and> writes r = map (\<lambda>l. (l, LayerVersionArn v)) ls))"
proof -
  from processLayers_Some [OF assms] obtain cs ds res where
    f: "fetch req t None None = Some (cs, ds, res)" and r: "r = finish t ls (cs, ds, res)"
    by blast
  show ?thesis
  proof (cases res)
    case (Inl e)
    then show ?thesis by (simp add: r finish_def)
  next
    case (Inr latest)
    then show ?thesis using f by (cases latest) (simp_all add: r finish_def)
  qed
qed

lemma write_slot_in_group:
  assumes "processLayers req t ls = Some r" and "w \<in> set (writes r)"
  shows "fst w \<in> set ls"
  using processLayers_writes [OF assms(1)] assms(2) by auto

lemma wf_assoc_same_entry:
  assumes wf: "wf_assoc region h la"
    and e: "e \<in> set la" and e': "e' \<in> set la"
    and s: "s \<in> set (snd e)" and s': "s \<in> set (snd e')"
  shows "e' = e"
proof -
  from wf e s obtain v where "read_slot h s = Some v"
    "fst (extractLayerName region v) = Some (fst e)"
    unfolding wf_assoc_def by blast
  moreover from wf e' s' obtain v' where "read_slot h s = Some v'"
    "fst (extractLayerName region v') = Some (fst e')"
    unfolding wf_assoc_def by blast
  ultimately have "fst e' = fst e" by simp
  moreover from wf have "distinct (map fst la)" by (simp add: wf_assoc_def)
  ultimately show ?thesis using e e' by (metis eq_key_imp_eq_value prod.collapse)
qed

lemma writes_valid:
  assumes wf: "wf_assoc region h la"
    and w: "w \<in> set (all_writes (map snd (run_tasks req la)))"
  shows "read_slot h (fst w) \<noteq> None"
proof -
  from w obtain e r where e: "e \<in> set la"
    and p: "processLayers req (fst e) (snd e) = Some r" and wr: "w \<in> set (writes r)"
    unfolding in_all_writes_run_tasks by blast
  from write_slot_in_group [OF p wr] have "fst w \<in> set (snd e)" .
  with wf e show ?thesis unfolding wf_assoc_def by fastforce
qed

lemma store_outside_groups:
  assumes wf: "wf_assoc region h la"
    and out: "\<forall>e \<in> set la. s \<notin> set (snd e)"
  shows "read_slot (apply_writes (all_writes (map snd (run_tasks req la))) h) s
         = read_slot h s"
proof (rule apply_writes_unwritten)
  show "\<forall>w \<in> set (all_writes (map snd (run_tasks req la))). read_slot h (fst w) \<noteq> None"
    using writes_valid [OF wf] by blast
  show "s \<notin> fst ` set (all_writes (map snd (run_tasks req la)))"
  proof
    assume "s \<in> fst ` set (all_writes (map snd (run_tasks req la)))"
    then obtain w where w: "w \<in> set (all_writes (map snd (run_tasks req la)))"
      and sw: "s = fst w" by blast
    from w obtain e r where e: "e \<in> set la"
      and p: "processLayers req (fst e) (snd e) = Some r" and wr: "w \<in> set (writes r)"
      unfolding in_all_writes_run_tasks by blast
    from write_slot_in_group [OF p wr] sw have "s \<in> set (snd e)" by simp
    with out e show False by blast
  qed
qed

lemma store_unresolved_group:
  assumes wf: "wf_assoc region h la"
    and e: "e \<in> set la" and s: "s \<in> set (snd e)"
    and un: "\<forall>r. processLayers req (fst e) (snd e) = Some r \<longrightarrow> writes r = []"
  shows "read_slot (apply_writes (all_writes (map snd (run_tasks req la))) h) s
         = read_slot h s"
proof (rule apply_writes_unwritten)
  show "\<forall>w \<in> set (all_writes (map snd (run_tasks req la))). read_slot h (fst w) \<noteq> None"
    using writes_valid [OF wf] by blast
  show "s \<notin> fst ` set (all_writes (map snd (run_tasks req la)))"
  proof
    assume "s \<in> fst ` set (all_writes (map snd (run_tasks req la)))"
    then obtain w where w: "w \<in> set (all_writes (map snd (run_tasks req la)))"
      and sw: "s = fst w" by blast
    from w obtain e' r where e': "e' \<in> set la"
      and p: "processLayers req (fst e') (snd e') = Some r" and wr: "w \<in> set (writes r)"
      unfolding in_all_writes_run_tasks by blast
    from write_slot_in_group [OF p wr] sw have "s \<in> set (snd e')" by simp
    with wf e e' s have "e' = e" by (rule wf_assoc_same_entry)
    with un p wr show False by auto
  qed
qed

lemma store_resolved_group:
  assumes wf: "wf_assoc region h la"
    and e: "e \<in> set la" and s: "s \<in> set (snd e)"
    and p: "processLayers req (fst e) (snd e) = Some r"
    and wr: "writes r = map (\<lambda>l. (l, x)) (snd e)"
  shows "read_slot (apply_writes (all_writes (map snd (run_tasks req la))) h) s
         = Some (JStr x)"
proof (rule apply_writes_written)
  let ?ws = "all_writes (map snd (run_tasks req la))"
  show "\<forall>w \<in> set ?ws. read_slot h (fst w) \<noteq> None"
    using writes_valid [OF wf] by blast
  have "(s, x) \<in> set (writes r)" using s wr by auto
  with e p have "(s, x) \<in> set ?ws" unfolding in_all_writes_run_tasks by blast
  then show "s \<in> fst ` set ?ws" by force
  show "\<forall>w \<in> set ?ws. fst w = s \<longrightarrow> snd w = x"
  proof (intro ballI impI)
    fix w assume w: "w \<in> set ?ws" and sw: "fst w = s"
    from w obtain e' r' where e': "e' \<in> set la"
      and p': "processLayers req (fst e') (snd e') = Some r'" and wr': "w \<in> set (writes r')"
      unfolding in_all_writes_run_tasks by blast
    from write_slot_in_group [OF p' wr'] sw have "s \<in> set (snd e')" by simp
    with wf e e' s have "e' = e" by (rule wf_assoc_same_entry)
    with p p' have "r' = r" by simp
    with wr' wr show "snd w = x" by auto
  qed
qed

lemma update_groups_wf: "wf_assoc region h (groups (update region req h layersList))"
proof (cases "group_all region h layersList []")
  case (Pair res d)
  show ?thesis
  proof (cases res)
    case (Inl e)
    with Pair show ?thesis by (simp add: update_def wf_assoc_Nil)
  next
    case (Inr la)
    with Pair have "wf_assoc region h la"
      using group_all_wf [OF wf_assoc_Nil] by blast
    with Pair Inr show ?thesis by (simp add: update_def Let_def)
  qed
qed

lemma run_tasks_Nil: "run_tasks req [] = []"
  by (simp add: run_tasks_def object_entries_def)

lemma update_tasks:
  "tasks (update region req h layersList)
   = run_tasks req (groups (update region req h layersList))"
  by (simp add: update_def Let_def run_tasks_Nil split: prod.splits sum.splits)

lemma update_store:
  "store (update region req h layersList)
   = apply_writes
       (all_writes (map snd (run_tasks req (groups (update region req h layersList))))) h"
  by (simp add: update_def Let_def run_tasks_Nil all_writes_def apply_writes_def
        split: prod.splits sum.splits)

lemma update_settled:
  "groups (update region req h layersList) \<noteq> []
   \<Longrightarrow> settled (update region req h layersList)
       = promise_all (map snd (tasks (update region req h layersList)))"
  by (simp add: update_def Let_def split: prod.splits sum.splits)

lemma first_thrown_Some:
  "Some r \<in> set ts \<Longrightarrow> thrown r = Some e \<Longrightarrow> \<exists>e'. first_thrown ts = Some e'"
proof (induction ts)
  case Nil
  then show ?case by simp
next
  case (Cons t ts)
  then show ?case by (cases t) (auto split: option.splits)
qed

lemma task_in_tasks:
  assumes "(t, ls) \<in> set (groups (update region req h layersList))"
  shows "(t, processLayers req t ls) \<in> set (tasks (update region req h layersList))"
  using assms unfolding update_tasks set_run_tasks by force

section \<open>The pass as a whole\<close>

lemma forEach_none_eligible:
  "\<forall>x \<in> set layers. \<not> eligible region x
   \<Longrightarrow> \<exists>d. forEach region a layers index la = (Inr la, d)"
proof (induction layers arbitrary: index)
  case Nil
  then show ?case by simp
next
  case (Cons layer rest)
  then have ne: "\<not> truthy (opt_val (fst (extractLayerName region layer)))"
    by (simp add: eligible_def)
  obtain layerName d0 where ex: "extractLayerName region layer = (layerName, d0)"
    by (cases "extractLayerName region layer")
  from Cons obtain d where "forEach region a rest (Suc index) la = (Inr la, d)"
    by fastforce
  with ne ex show ?case by simp
qed

lemma group_all_none_eligible:
  "\<forall>layers \<in> set layersList. \<forall>a xs. array_of h layers = Some (a, xs)
       \<longrightarrow> (\<forall>x \<in> set xs. \<not> eligible region x)
   \<Longrightarrow> \<exists>d. group_all region h layersList la = (Inr la, d)"
proof (induction layersList)
  case Nil
  then show ?case by simp
next
  case (Cons layers rest)
  then obtain d where r: "group_all region h rest la = (Inr la, d)" by fastforce
  show ?case
  proof (cases "array_of h layers")
    case None
    with r show ?thesis by simp
  next
    case (Some p)
    obtain a xs where p: "p = (a, xs)" by (cases p)
    with Some Cons.prems have "\<forall>x \<in> set xs. \<not> eligible region x" by simp
    from forEach_none_eligible [OF this] obtain d' where
      "forEach region a xs 0 la = (Inr la, d')" by blast
    with Some p r show ?thesis by simp
  qed
qed

lemma not_eligible_outside_groups:
  assumes wf: "wf_assoc region h la" and rd: "read_slot h l = Some v"
    and ne: "fst (extractLayerName region v) = None"
  shows "\<forall>e \<in> set la. l \<notin> set (snd e)"
proof (intro ballI notI)
  fix e assume "e \<in> set la" "l \<in> set (snd e)"
  with wf obtain v' where "read_slot h l = Some v'"
    "fst (extractLayerName region v') = Some (fst e)"
    unfolding wf_assoc_def by blast
  with rd ne show False by simp
qed

text \<open>
  C7. A value that is not a string, a string that does not match the pattern, and a
  reference that carries a decimal version number are all not eligible:
  \<^verbatim>\<open>extractLayerName\<close> returns \<^verbatim>\<open>undefined\<close> (it has no path that throws), and a slot that
  holds such a value holds the same value after the whole pass, whatever the provider
  answers and whatever else the configuration contains.
\<close>

theorem not_eligible_untouched:
  assumes "(\<forall>s. v \<noteq> JStr s) \<or> (\<exists>s. v = JStr s \<and> reg_exec s = None)
           \<or> (\<exists>r a n d. numeric d \<and> v = JStr (layer_ref r a n d))"
    and "read_slot h l = Some v"
  shows "fst (extractLayerName region v) = None
         \<and> \<not> eligible region v
         \<and> read_slot (store (update region req h layersList)) l = Some v"
proof -
  have ne: "fst (extractLayerName region v) = None"
    using assms(1)
    by (auto simp: extractLayerName_not_string extractLayerName_no_match reg_exec_numeric)
  then have "\<not> eligible region v" by (simp add: eligible_def opt_val_def)
  moreover have "read_slot (store (update region req h layersList)) l = read_slot h l"
    unfolding update_store
    using update_groups_wf not_eligible_outside_groups [OF update_groups_wf assms(2) ne]
    by (rule store_outside_groups)
  ultimately show ?thesis using ne assms(2) by simp
qed

text \<open>
  C8. When no element of any array of the list is eligible (entries that are not arrays,
  such as \<^verbatim>\<open>undefined\<close>, \<^verbatim>\<open>null\<close> or a string, are skipped by the loop), \<^verbatim>\<open>update\<close> is
  fulfilled, starts no task and so issues no request, and leaves the store as it was.
\<close>

theorem nothing_eligible:
  assumes "\<forall>layers \<in> set layersList. \<forall>a xs. array_of h layers = Some (a, xs)
             \<longrightarrow> (\<forall>x \<in> set xs. \<not> eligible region x)"
  shows "settled (update region req h layersList) = Fulfilled
         \<and> groups (update region req h layersList) = []
         \<and> tasks (update region req h layersList) = []
         \<and> store (update region req h layersList) = h"
proof -
  from group_all_none_eligible [OF assms, of "[]"] obtain d where
    "group_all region h layersList [] = (Inr [], d)" by blast
  then show ?thesis
    by (simp add: update_def run_tasks_Nil promise_all_def all_writes_def apply_writes_def)
qed

text \<open>
  Once every task has settled: when the pass has two groups, the task of the first
  finishes without an error and the task of the second throws, the promise of \<^verbatim>\<open>update\<close>
  is rejected, every slot of the first group holds the ARN of the version the loop
  found, and every slot of the second group holds what it held before. This is the store
  after the last task has ended, which may be later than the rejection.
\<close>

lemma all_settled_partial_application:
  assumes u: "u = update region req h layersList"
    and g1: "(t1, ls1) \<in> set (groups u)"
    and p1: "processLayers req t1 ls1 = Some r1" and ok: "thrown r1 = None"
    and g2: "(t2, ls2) \<in> set (groups u)"
    and p2: "processLayers req t2 ls2 = Some r2" and ko: "thrown r2 = Some e"
  shows "(\<exists>e'. settled u = Rejected e')
         \<and> (\<exists>cs ds v. fetch req t1 None None = Some (cs, ds, Inr (Some v))
               \<and> (\<forall>l \<in> set ls1. read_slot (store u) l = Some (JStr (LayerVersionArn v))))
         \<and> (\<forall>l \<in> set ls2. read_slot (store u) l = read_slot h l)
         \<and> ls1 \<noteq> [] \<and> ls2 \<noteq> [] \<and> t1 \<noteq> t2"
proof -
  have wf: "wf_assoc region h (groups u)" unfolding u by (rule update_groups_wf)
  have st: "store u = apply_writes (all_writes (map snd (run_tasks req (groups u)))) h"
    unfolding u by (rule update_store)
  have "(t2, processLayers req t2 ls2) \<in> set (tasks u)"
    using g2 unfolding u by (rule task_in_tasks)
  then have "Some r2 \<in> set (map snd (tasks u))" using p2 by force
  from first_thrown_Some [OF this ko] obtain e' where
    "first_thrown (map snd (tasks u)) = Some e'" by blast
  moreover from g1 have "groups u \<noteq> []" by auto
  ultimately have 1: "\<exists>e'. settled u = Rejected e'"
    unfolding u by (simp add: update_settled promise_all_def)
  from processLayers_writes [OF p1] ok obtain cs ds v where
    f: "fetch req t1 None None = Some (cs, ds, Inr (Some v))" and
    w: "writes r1 = map (\<lambda>l. (l, LayerVersionArn v)) ls1"
    by auto
  have "read_slot (store u) l = Some (JStr (LayerVersionArn v))" if "l \<in> set ls1" for l
    unfolding st
    using store_resolved_group [OF wf g1, of l req r1 "LayerVersionArn v"] that p1 w
    by simp
  with f have 2: "\<exists>cs ds v. fetch req t1 None None = Some (cs, ds, Inr (Some v))
               \<and> (\<forall>l \<in> set ls1. read_slot (store u) l = Some (JStr (LayerVersionArn v)))"
    by blast
  from processLayers_writes [OF p2] ko have w2: "writes r2 = []" by auto
  have 3: "\<forall>l \<in> set ls2. read_slot (store u) l = read_slot h l"
  proof
    fix l assume "l \<in> set ls2"
    then show "read_slot (store u) l = read_slot h l"
      unfolding st
      using store_unresolved_group [OF wf g2, of l req] p2 w2 by simp
  qed
  from wf g1 g2 have 4: "ls1 \<noteq> []" "ls2 \<noteq> []" unfolding wf_assoc_def by auto
  have 5: "t1 \<noteq> t2"
  proof
    assume "t1 = t2"
    moreover from wf have "distinct (map fst (groups u))" by (simp add: wf_assoc_def)
    ultimately have "ls1 = ls2" using g1 g2 by (metis eq_key_imp_eq_value)
    with \<open>t1 = t2\<close> p1 p2 ok ko show False by simp
  qed
  from 1 2 3 4 5 show ?thesis by blast
qed

text \<open>
  C5. When the pages served for a name hold no version record, \<^verbatim>\<open>processLayers\<close> throws
  the error whose message names the layer and calls no listener; in a pass with a group
  for that name, the promise of \<^verbatim>\<open>update\<close> is rejected and the slots of the group are
  left as they were.
\<close>

theorem no_version_available:
  assumes sv: "serves req t None ps" and em: "versions_of ps = []"
    and u: "u = update region req h layersList"
    and g: "(t, ls) \<in> set (groups u)"
  shows "(\<exists>r. processLayers req t listeners = Some r
            \<and> thrown r
              = Some (Error (''Lambda layer '' @ t @ '' has no version available.''))
            \<and> writes r = [])
         \<and> (\<exists>e. settled u = Rejected e)
         \<and> (\<forall>l \<in> set ls. read_slot (store u) l = read_slot h l)"
proof -
  have pl: "processLayers req t ls' = Some (finish t ls'
             (requests t None ps, map Result ps, Inr None))" for ls'
    using processLayers_serves [OF sv, of ls'] em by simp
  have 1: "\<exists>r. processLayers req t listeners = Some r
            \<and> thrown r
              = Some (Error (''Lambda layer '' @ t @ '' has no version available.''))
            \<and> writes r = []"
    by (simp add: pl finish_def)
  have wf: "wf_assoc region h (groups u)" unfolding u by (rule update_groups_wf)
  have st: "store u = apply_writes (all_writes (map snd (run_tasks req (groups u)))) h"
    unfolding u by (rule update_store)
  have "(t, processLayers req t ls) \<in> set (tasks u)"
    using g unfolding u by (rule task_in_tasks)
  then have "Some (finish t ls (requests t None ps, map Result ps, Inr None))
             \<in> set (map snd (tasks u))"
    unfolding pl by force
  from first_thrown_Some [OF this] obtain e' where
    "first_thrown (map snd (tasks u)) = Some e'" by (auto simp: finish_def)
  moreover from g have "groups u \<noteq> []" by auto
  ultimately have 2: "\<exists>e. settled u = Rejected e"
    unfolding u by (simp add: update_settled promise_all_def)
  have 3: "\<forall>l \<in> set ls. read_slot (store u) l = read_slot h l"
  proof
    fix l assume "l \<in> set ls"
    then show "read_slot (store u) l = read_slot h l"
      unfolding st
      using store_unresolved_group [OF wf g, of l req] by (simp add: pl finish_def)
  qed
  from 1 2 3 show ?thesis by blast
qed

lemma extract_foo_ref:
  "extractLayerName ''us-east-1'' (JStr foo_ref) = (Some foo_target, [])"
proof -
  have e: "foo_ref = layer_ref ''?'' ''123'' ''foo'' sentinel"
    by (simp add: foo_ref_def layer_ref_def sentinel_def)
  have c: "colon_free ''?''" "colon_free ''123''" "colon_free ''foo''"
    by (simp_all add: colon_free_def)
  show ?thesis unfolding e by (simp add: extractLayerName_match [OF c] foo_target_def)
qed

lemma extract_bar_ref: "extractLayerName region (JStr bar_ref) = (Some ''bar'', [])"
proof -
  have e: "bar_ref = layer_ref ''?'' ''?'' ''bar'' sentinel"
    by (simp add: bar_ref_def layer_ref_def sentinel_def)
  have c: "colon_free ''?''" "colon_free ''?''" "colon_free ''bar''"
    by (simp_all add: colon_free_def)
  show ?thesis unfolding e by (simp add: extractLayerName_match [OF c])
qed

lemma extract_constructor_ref:
  "extractLayerName region (JStr constructor_ref) = (Some ''constructor'', [])"
proof -
  have e: "constructor_ref = layer_ref ''?'' ''?'' ''constructor'' sentinel"
    by (simp add: constructor_ref_def layer_ref_def sentinel_def)
  have c: "colon_free ''?''" "colon_free ''?''" "colon_free ''constructor''"
    by (simp_all add: colon_free_def)
  show ?thesis unfolding e by (simp add: extractLayerName_match [OF c])
qed

lemma reg_exec_plain: "reg_exec ''plain'' = None"
  by (simp add: reg_exec_def)

lemma extract_plain: "extractLayerName region (JStr ''plain'') = (None, [SkipNoMatch ''plain''])"
  by (simp add: extractLayerName_def reg_exec_plain)

lemma group_all_example:
  "group_all ''us-east-1'' example_heap example_layers []
   = (Inr [(foo_target, [(0, 0), (1, 0)]), (''bar'', [(0, 2)])], [SkipNoMatch ''plain''])"
  by (simp add: example_layers_def example_heap_def array_of_def extract_foo_ref
        extract_bar_ref extract_plain opt_val_def to_string_def associate_def
        object_prototype_keys_def foo_target_def)

lemma groups_example_pass:
  "groups example_pass = [(foo_target, [(0, 0), (1, 0)]), (''bar'', [(0, 2)])]"
  by (simp add: example_pass_def update_def group_all_example Let_def)

lemma serves_mixed_foo: "serves mixed_provider foo_target None two_pages"
  by (simp add: mixed_provider_def foo_target_def two_page_provider_def two_pages_def
        opt_val_def)

lemma serves_mixed_bar: "serves mixed_provider ''bar'' None [empty_page]"
  by (simp add: mixed_provider_def empty_page_def opt_val_def)

lemma foldl_pick_two_pages:
  "foldl pick None (versions_of two_pages) = Some \<lparr>Version = 5, LayerVersionArn = ''A5''\<rparr>"
  by (simp add: versions_of_def two_pages_def pick_def)

text \<open>
  C1, at the input where it fails. A reference to a layer named \<^verbatim>\<open>constructor\<close> in the
  local account is eligible and has the target \<^verbatim>\<open>constructor\<close>. Reading that key from the
  empty \<^verbatim>\<open>layerAssociation\<close> finds \<^verbatim>\<open>Object.prototype.constructor\<close>, the call of its
  \<^verbatim>\<open>push\<close> throws, and \<^verbatim>\<open>update\<close> is rejected before any task is started: no request is
  issued for the target and its slot is not written.
\<close>

theorem constructor_target_rejected:
  "update region req constructor_heap [JRef 0]
   = \<lparr>settled = Rejected (TypeError ''listeners.push is not a function''),
      groups = [], tasks = [], store = constructor_heap, log = []\<rparr>
   \<and> eligible region (JStr constructor_ref)
   \<and> fst (extractLayerName region (JStr constructor_ref)) = Some ''constructor''"
  by (simp add: update_def constructor_heap_def array_of_def extract_constructor_ref
        opt_val_def to_string_def associate_def object_prototype_keys_def eligible_def)

lemma all_settled_partial_application_example:
  "(foo_target, [(0, 0), (1, 0)]) \<in> set (groups example_pass)
   \<and> (''bar'', [(0, 2)]) \<in> set (groups example_pass)
   \<and> (\<exists>r. processLayers mixed_provider foo_target [(0, 0), (1, 0)] = Some r \<and> thrown r = None)
   \<and> (\<exists>r e. processLayers mixed_provider ''bar'' [(0, 2)] = Some r \<and> thrown r = Some e)
   \<and> (\<exists>e. settled example_pass = Rejected e)
   \<and> read_slot (store example_pass) (0, 0) = Some (JStr ''A5'')
   \<and> read_slot (store example_pass) (1, 0) = Some (JStr ''A5'')
   \<and> read_slot (store example_pass) (0, 2) = Some (JStr bar_ref)"
proof -
  let ?r1 = "finish foo_target [(0, 0), (1, 0)]
               (requests foo_target None two_pages, map Result two_pages,
                Inr (foldl pick None (versions_of two_pages)))"
  let ?r2 = "finish ''bar'' [(0, 2)]
               (requests ''bar'' None [empty_page], map Result [empty_page],
                Inr (foldl pick None (versions_of [empty_page])))"
  have g1: "(foo_target, [(0, 0), (1, 0)]) \<in> set (groups example_pass)"
    and g2: "(''bar'', [(0, 2)]) \<in> set (groups example_pass)"
    by (simp_all add: groups_example_pass)
  have p1: "processLayers mixed_provider foo_target [(0, 0), (1, 0)] = Some ?r1"
    by (rule processLayers_serves [OF serves_mixed_foo])
  have ok: "thrown ?r1 = None"
    by (simp add: foldl_pick_two_pages finish_def)
  have p2: "processLayers mixed_provider ''bar'' [(0, 2)] = Some ?r2"
    by (rule processLayers_serves [OF serves_mixed_bar])
  have ko: "thrown ?r2 = Some (Error ''Lambda layer bar has no version available.'')"
    by (simp add: finish_def versions_of_def empty_page_def)
  have f: "fetch mixed_provider foo_target None None
           = Some (requests foo_target None two_pages, map Result two_pages,
                   Inr (Some \<lparr>Version = 5, LayerVersionArn = ''A5''\<rparr>))"
    by (simp add: fetch_serves [OF serves_mixed_foo] foldl_pick_two_pages)
  have old: "read_slot example_heap (0, 2) = Some (JStr bar_ref)"
    by (simp add: read_slot_def example_heap_def)
  from all_settled_partial_application [OF example_pass_def g1 p1 ok g2 p2 ko] f old
  have "(\<exists>e. settled example_pass = Rejected e)
        \<and> read_slot (store example_pass) (0, 0) = Some (JStr ''A5'')
        \<and> read_slot (store example_pass) (1, 0) = Some (JStr ''A5'')
        \<and> read_slot (store example_pass) (0, 2) = Some (JStr bar_ref)"
    by auto
  with g1 g2 p1 ok p2 ko show ?thesis by simp
qed

theorem no_version_available_witness:
  "serves mixed_provider ''bar'' None [empty_page]
   \<and> versions_of [empty_page] = []
   \<and> (''bar'', [(0, 2)]) \<in> set (groups example_pass)
   \<and> (\<exists>r. processLayers mixed_provider ''bar'' [(0, 2)] = Some r
          \<and> thrown r = Some (Error ''Lambda layer bar has no version available.'')
          \<and> writes r = [])
   \<and> (\<exists>e. settled example_pass = Rejected e)
   \<and> read_slot (store example_pass) (0, 2) = Some (JStr bar_ref)"
proof -
  have em: "versions_of [empty_page] = []"
    by (simp add: versions_of_def empty_page_def)
  have g: "(''bar'', [(0, 2)]) \<in> set (groups example_pass)"
    by (simp add: groups_example_pass)
  have old: "read_slot example_heap (0, 2) = Some (JStr bar_ref)"
    by (simp add: read_slot_def example_heap_def)
  from no_version_available [OF serves_mixed_bar em example_pass_def g, of "[(0, 2)]"] old
  have "(\<exists>r. processLayers mixed_provider ''bar'' [(0, 2)] = Some r
          \<and> thrown r = Some (Error ''Lambda layer bar has no version available.'')
          \<and> writes r = [])
        \<and> (\<exists>e. settled example_pass = Rejected e)
        \<and> read_slot (store example_pass) (0, 2) = Some (JStr bar_ref)"
    by simp
  with serves_mixed_bar em g show ?thesis by blast
qed

theorem not_eligible_untouched_witness:
  "reg_exec ''plain'' = None
   \<and> read_slot example_heap (0, 1) = Some (JStr ''plain'')
   \<and> fst (extractLayerName ''us-east-1'' (JStr ''plain'')) = None
   \<and> read_slot (store example_pass) (0, 1) = Some (JStr ''plain'')"
proof -
  have d: "(\<forall>s. JStr ''plain'' \<noteq> JStr s) \<or> (\<exists>s. JStr ''plain'' = JStr s \<and> reg_exec s = None)
           \<or> (\<exists>r a n d. numeric d \<and> JStr ''plain'' = JStr (layer_ref r a n d))"
    using reg_exec_plain by blast
  have old: "read_slot example_heap (0, 1) = Some (JStr ''plain'')"
    by (simp add: read_slot_def example_heap_def)
  from not_eligible_untouched [OF d old, of "''us-east-1''" mixed_provider example_layers]
    reg_exec_plain old
  show ?thesis by (simp add: example_pass_def)
qed

theorem nothing_eligible_witness:
  "array_of plain_heap (plain_layers ! 0) = Some (0, [JStr ''plain'', JNum (Fin 7), JNull])
   \<and> settled (update ''us-east-1'' two_page_provider plain_heap plain_layers) = Fulfilled
   \<and> tasks (update ''us-east-1'' two_page_provider plain_heap plain_layers) = []
   \<and> store (update ''us-east-1'' two_page_provider plain_heap plain_layers) = plain_heap"
proof -
  have hyp: "\<forall>layers \<in> set plain_layers. \<forall>a xs. array_of plain_heap layers = Some (a, xs)
       \<longrightarrow> (\<forall>x \<in> set xs. \<not> eligible ''us-east-1'' x)"
    by (simp add: plain_layers_def plain_heap_def array_of_def eligible_def
          extractLayerName_def reg_exec_plain opt_val_def)
  have arr: "array_of plain_heap (plain_layers ! 0)
             = Some (0, [JStr ''plain'', JNum (Fin 7), JNull])"
    by (simp add: plain_layers_def plain_heap_def array_of_def)
  from nothing_eligible [OF hyp, of two_page_provider] arr show ?thesis by simp
qed

section \<open>Deduplication\<close>

lemma grows_refl: "grows la la"
  by (auto simp: grows_def)

lemma grows_trans:
  assumes "grows la la1" and "grows la1 la2"
  shows "grows la la2"
  unfolding grows_def
proof
  fix e assume "e \<in> set la"
  with assms(1) obtain e1 where e1: "e1 \<in> set la1" "fst e1 = fst e"
    "set (snd e) \<subseteq> set (snd e1)"
    unfolding grows_def by blast
  with assms(2) obtain e2 where "e2 \<in> set la2" "fst e2 = fst e1"
    "set (snd e1) \<subseteq> set (snd e2)"
    unfolding grows_def by blast
  with e1 show "\<exists>e' \<in> set la2. fst e' = fst e \<and> set (snd e) \<subseteq> set (snd e')"
    by (intro bexI [of _ e2]) auto
qed

lemma associate_Inl: "associate t l la = Inl e \<Longrightarrow> t \<in> set object_prototype_keys"
  by (simp add: associate_def split: option.splits if_splits)

lemma associate_grows:
  assumes "associate t l la = Inr la'"
  shows "grows la la' \<and> (\<exists>e' \<in> set la'. fst e' = t \<and> l \<in> set (snd e'))"
proof (cases "map_of la t")
  case None
  with assms have la': "la' = la @ [(t, [l])]"
    by (simp add: associate_def split: if_splits)
  show ?thesis unfolding la' grows_def by auto
next
  case (Some ls)
  with assms have la': "la' = map (\<lambda>e. if fst e = t then (fst e, snd e @ [l]) else e) la"
    by (simp add: associate_def)
  from Some have in_la: "(t, ls) \<in> set la" by (rule map_of_SomeD)
  have g: "grows la la'"
    unfolding grows_def
  proof
    fix e assume e: "e \<in> set la"
    let ?e' = "if fst e = t then (fst e, snd e @ [l]) else e"
    from e have "?e' \<in> set la'" unfolding la' by (simp only: set_map) (rule imageI)
    moreover have "fst ?e' = fst e \<and> set (snd e) \<subseteq> set (snd ?e')" by auto
    ultimately show "\<exists>e' \<in> set la'. fst e' = fst e \<and> set (snd e) \<subseteq> set (snd e')"
      by blast
  qed
  from in_la have "(t, ls @ [l]) \<in> set la'" unfolding la' by force
  then have "\<exists>e' \<in> set la'. fst e' = t \<and> l \<in> set (snd e')" by force
  with g show ?thesis by simp
qed

lemma extract_Some_not_empty:
  assumes "fst (extractLayerName region v) = Some t"
  shows "t \<noteq> []"
proof -
  from assms obtain s where v: "v = JStr s"
    by (cases v) (auto simp: extractLayerName_def split: if_splits)
  from assms v obtain g where g: "reg_exec s = Some g"
    by (cases "reg_exec s") (auto simp: extractLayerName_def split: if_splits)
  from reg_exec_Some [OF g] obtain r a n where
    c: "colon_free r" "colon_free a" "colon_free n" and s: "s = layer_ref r a n sentinel"
    by blast
  from assms show ?thesis
    unfolding v s using c by (auto simp: extractLayerName_match colon_free_def split: if_splits)
qed

lemma eligible_iff: "eligible region v \<longleftrightarrow> (\<exists>t. fst (extractLayerName region v) = Some t)"
proof
  assume "eligible region v"
  then show "\<exists>t. fst (extractLayerName region v) = Some t"
    by (cases "fst (extractLayerName region v)") (simp_all add: eligible_def opt_val_def)
next
  assume "\<exists>t. fst (extractLayerName region v) = Some t"
  then obtain t where t: "fst (extractLayerName region v) = Some t" by blast
  from extract_Some_not_empty [OF t] t show "eligible region v"
    by (simp add: eligible_def opt_val_def)
qed

lemma forEach_complete:
  "h a = Some xs \<Longrightarrow> layers = drop index xs
   \<Longrightarrow> forEach region a layers index la = (Inr la', d)
   \<Longrightarrow> grows la la'
       \<and> (\<forall>i t. index \<le> i \<and> i < length xs \<and> fst (extractLayerName region (xs ! i)) = Some t
             \<longrightarrow> (\<exists>e' \<in> set la'. fst e' = t \<and> (a, i) \<in> set (snd e')))"
proof (induction layers arbitrary: index la d)
  case Nil
  then have "length xs \<le> index" by simp
  with Nil show ?case by (auto simp: grows_refl)
next
  case (Cons layer rest)
  from Cons.prems(2) have idx: "index < length xs"
    by (metis drop_all list.distinct(1) not_le)
  from Cons.prems(2) have layer: "xs ! index = layer"
    by (metis Cons_nth_drop_Suc idx list.sel(1))
  from Cons.prems(2) have rest: "rest = drop (Suc index) xs"
    by (metis Cons_nth_drop_Suc idx list.sel(3))
  obtain layerName d0 where ex: "extractLayerName region layer = (layerName, d0)"
    by (cases "extractLayerName region layer")
  show ?case
  proof (cases "truthy (opt_val layerName)")
    case False
    with Cons.prems(3) ex obtain d' where
      fe: "forEach region a rest (Suc index) la = (Inr la', d')"
      by (auto split: prod.splits)
    from Cons.IH [OF Cons.prems(1) rest fe] have
      g: "grows la la'" and
      c: "\<forall>i t. Suc index \<le> i \<and> i < length xs
              \<and> fst (extractLayerName region (xs ! i)) = Some t
             \<longrightarrow> (\<exists>e' \<in> set la'. fst e' = t \<and> (a, i) \<in> set (snd e'))"
      by blast+
    have "\<not> eligible region layer" using False ex by (simp add: eligible_def)
    then have no: "fst (extractLayerName region (xs ! index)) = None"
      unfolding eligible_iff layer by simp
    have "\<exists>e' \<in> set la'. fst e' = t \<and> (a, i) \<in> set (snd e')"
      if "index \<le> i" "i < length xs" "fst (extractLayerName region (xs ! i)) = Some t"
      for i t
    proof (cases "i = index")
      case True
      with that no show ?thesis by simp
    next
      case False
      with that have "Suc index \<le> i" by simp
      with c that show ?thesis by blast
    qed
    with g show ?thesis by blast
  next
    case True
    then obtain t0 where t0: "layerName = Some t0"
      by (cases layerName) (simp_all add: opt_val_def)
    with Cons.prems(3) ex True obtain la1 d' where
      as: "associate t0 (a, index) la = Inr la1" and
      fe: "forEach region a rest (Suc index) la1 = (Inr la', d')"
      by (auto simp: to_string_def split: prod.splits sum.splits)
    from associate_grows [OF as] have
      g0: "grows la la1" and
      in0: "\<exists>e' \<in> set la1. fst e' = t0 \<and> (a, index) \<in> set (snd e')"
      by blast+
    from Cons.IH [OF Cons.prems(1) rest fe] have
      g: "grows la1 la'" and
      c: "\<forall>i t. Suc index \<le> i \<and> i < length xs
              \<and> fst (extractLayerName region (xs ! i)) = Some t
             \<longrightarrow> (\<exists>e' \<in> set la'. fst e' = t \<and> (a, i) \<in> set (snd e'))"
      by blast+
    from in0 g have here: "\<exists>e' \<in> set la'. fst e' = t0 \<and> (a, index) \<in> set (snd e')"
      unfolding grows_def by (metis subsetD)
    have "\<exists>e' \<in> set la'. fst e' = t \<and> (a, i) \<in> set (snd e')"
      if "index \<le> i" "i < length xs" "fst (extractLayerName region (xs ! i)) = Some t"
      for i t
    proof (cases "i = index")
      case True
      with that layer ex t0 have "t = t0" by simp
      with here True show ?thesis by simp
    next
      case False
      with that have "Suc index \<le> i" by simp
      with c that show ?thesis by blast
    qed
    with grows_trans [OF g0 g] show ?thesis by blast
  qed
qed

lemma forEach_Inl:
  "forEach region a layers index la = (Inl e, d)
   \<Longrightarrow> \<exists>x \<in> set layers. \<exists>t. fst (extractLayerName region x) = Some t
          \<and> t \<in> set object_prototype_keys"
proof (induction layers arbitrary: index la d)
  case Nil
  then show ?case by simp
next
  case (Cons layer rest)
  obtain layerName d0 where ex: "extractLayerName region layer = (layerName, d0)"
    by (cases "extractLayerName region layer")
  show ?case
  proof (cases "truthy (opt_val layerName)")
    case False
    with Cons.prems ex obtain d' where
      "forEach region a rest (Suc index) la = (Inl e, d')"
      by (auto split: prod.splits)
    from Cons.IH [OF this] show ?thesis by auto
  next
    case True
    then obtain t0 where t0: "layerName = Some t0"
      by (cases layerName) (simp_all add: opt_val_def)
    show ?thesis
    proof (cases "associate t0 (a, index) la")
      case (Inl e0)
      from associate_Inl [OF this] ex t0 show ?thesis by auto
    next
      case (Inr la1)
      with Cons.prems ex True t0 obtain d' where
        "forEach region a rest (Suc index) la1 = (Inl e, d')"
        by (auto simp: to_string_def split: prod.splits)
      from Cons.IH [OF this] show ?thesis by auto
    qed
  qed
qed

lemma array_of_Some: "array_of h v = Some (a, xs) \<Longrightarrow> h a = Some xs"
  by (auto simp: array_of_def split: jsval.splits option.splits)

lemma group_all_complete:
  "group_all region h layersList la = (Inr la', d)
   \<Longrightarrow> grows la la'
       \<and> (\<forall>layers \<in> set layersList. \<forall>a xs i t.
             array_of h layers = Some (a, xs) \<and> i < length xs
             \<and> fst (extractLayerName region (xs ! i)) = Some t
             \<longrightarrow> (\<exists>e' \<in> set la'. fst e' = t \<and> (a, i) \<in> set (snd e')))"
proof (induction layersList arbitrary: la d)
  case Nil
  then show ?case by (simp add: grows_refl)
next
  case (Cons layers rest)
  show ?case
  proof (cases "array_of h layers")
    case None
    with Cons.prems have "group_all region h rest la = (Inr la', d)" by simp
    from Cons.IH [OF this] None show ?thesis by auto
  next
    case (Some p)
    obtain a0 xs0 where p: "p = (a0, xs0)" by (cases p)
    from Cons.prems Some p obtain la1 d1 d2 where
      fe: "forEach region a0 xs0 0 la = (Inr la1, d1)" and
      ga: "group_all region h rest la1 = (Inr la', d2)"
      by (auto split: prod.splits sum.splits)
    from Some p have h: "h a0 = Some xs0" by (simp add: array_of_Some)
    have "xs0 = drop 0 xs0" by simp
    from forEach_complete [where h = h and a = a0 and xs = xs0 and index = 0, OF h this fe]
    have
      g1: "grows la la1" and
      c1: "\<forall>i t. i < length xs0 \<and> fst (extractLayerName region (xs0 ! i)) = Some t
             \<longrightarrow> (\<exists>e' \<in> set la1. fst e' = t \<and> (a0, i) \<in> set (snd e'))"
      by auto
    from Cons.IH [OF ga] have
      g2: "grows la1 la'" and
      c2: "\<forall>layers \<in> set rest. \<forall>a xs i t.
             array_of h layers = Some (a, xs) \<and> i < length xs
             \<and> fst (extractLayerName region (xs ! i)) = Some t
             \<longrightarrow> (\<exists>e' \<in> set la'. fst e' = t \<and> (a, i) \<in> set (snd e'))"
      by blast+
    have here: "\<exists>e' \<in> set la'. fst e' = t \<and> (a0, i) \<in> set (snd e')"
      if "i < length xs0" "fst (extractLayerName region (xs0 ! i)) = Some t" for i t
    proof -
      from c1 that obtain e1 where "e1 \<in> set la1" "fst e1 = t" "(a0, i) \<in> set (snd e1)"
        by blast
      with g2 show ?thesis unfolding grows_def by (metis subsetD)
    qed
    have "\<exists>e' \<in> set la'. fst e' = t \<and> (a, i) \<in> set (snd e')"
      if "ls \<in> set (layers # rest)" "array_of h ls = Some (a, xs)" "i < length xs"
        "fst (extractLayerName region (xs ! i)) = Some t" for ls a xs i t
    proof (cases "ls = layers")
      case True
      with that Some p have "a = a0" "xs = xs0" by simp_all
      with here that show ?thesis by simp
    next
      case False
      with that have "ls \<in> set rest" by simp
      with c2 that show ?thesis by blast
    qed
    with grows_trans [OF g1 g2] show ?thesis by blast
  qed
qed

lemma group_all_Inl:
  "group_all region h layersList la = (Inl e, d)
   \<Longrightarrow> \<exists>layers \<in> set layersList. \<exists>a xs. array_of h layers = Some (a, xs)
          \<and> (\<exists>x \<in> set xs. \<exists>t. fst (extractLayerName region x) = Some t
                \<and> t \<in> set object_prototype_keys)"
proof (induction layersList arbitrary: la d)
  case Nil
  then show ?case by simp
next
  case (Cons layers rest)
  show ?case
  proof (cases "array_of h layers")
    case None
    with Cons.prems have "group_all region h rest la = (Inl e, d)" by simp
    from Cons.IH [OF this] show ?thesis by auto
  next
    case (Some p)
    obtain a0 xs0 where p: "p = (a0, xs0)" by (cases p)
    obtain res d1 where fe: "forEach region a0 xs0 0 la = (res, d1)"
      by (cases "forEach region a0 xs0 0 la")
    show ?thesis
    proof (cases res)
      case (Inl e0)
      from forEach_Inl [OF fe [unfolded Inl]] Some p show ?thesis by auto
    next
      case (Inr la1)
      with Cons.prems Some p fe obtain d2 where
        "group_all region h rest la1 = (Inl e, d2)"
        by (auto split: prod.splits)
      from Cons.IH [OF this] show ?thesis by auto
    qed
  qed
qed

lemma distinct_keys_object_entries:
  assumes "distinct (map fst la)"
  shows "distinct (map fst (object_entries la))"
proof -
  let ?P = "\<lambda>e. is_array_index (fst e)"
  let ?A = "sort_key (\<lambda>e. digits_value 10 (fst e)) (filter ?P la)"
  let ?B = "filter (\<lambda>e. \<not> ?P e) la"
  from assms have d: "distinct la" and inj: "inj_on fst (set la)"
    by (simp_all add: distinct_map)
  have "distinct (map fst ?A)"
    unfolding distinct_map using d inj by (auto intro: inj_on_subset)
  moreover have "distinct (map fst ?B)"
    using assms by (rule distinct_map_filter)
  moreover have "fst ` set ?A \<inter> fst ` set ?B = {}" by auto
  ultimately show ?thesis by (simp add: object_entries_def)
qed

lemma distinct_task_names:
  "distinct (map fst (tasks (update region req h layersList)))"
proof -
  have "map fst (run_tasks req la) = map fst (object_entries la)" for la
    by (simp add: run_tasks_def comp_def)
  moreover have "distinct (map fst (groups (update region req h layersList)))"
    using update_groups_wf [of region h req layersList] by (simp add: wf_assoc_def)
  ultimately show ?thesis
    unfolding update_tasks by (simp add: distinct_keys_object_entries)
qed

lemma one_task_for_key:
  assumes "distinct (map fst ts)" and "(t, r) \<in> set ts"
  shows "filter (\<lambda>e. fst e = t) ts = [(t, r)]"
  using assms
proof (induction ts)
  case Nil
  then show ?case by simp
next
  case (Cons x ts)
  show ?case
  proof (cases "x = (t, r)")
    case True
    with Cons.prems(1) have "t \<notin> fst ` set ts" by auto
    then have "filter (\<lambda>e. fst e = t) ts = []"
      by (auto simp: filter_empty_conv)
    with True show ?thesis by simp
  next
    case False
    with Cons.prems have in_ts: "(t, r) \<in> set ts" by simp
    then have "t \<in> fst ` set ts" by force
    with Cons.prems(1) have "fst x \<noteq> t" by auto
    with Cons.IH in_ts Cons.prems(1) show ?thesis by simp
  qed
qed

lemma groups_when_no_prototype_key:
  assumes "\<forall>layers \<in> set layersList. \<forall>a xs. array_of h layers = Some (a, xs)
             \<longrightarrow> (\<forall>x \<in> set xs. \<forall>t. fst (extractLayerName region x) = Some t
                    \<longrightarrow> t \<notin> set object_prototype_keys)"
  shows "\<exists>d. group_all region h layersList []
              = (Inr (groups (update region req h layersList)), d)"
proof (cases "group_all region h layersList []")
  case (Pair res d)
  show ?thesis
  proof (cases res)
    case (Inl e)
    from group_all_Inl [OF Pair [unfolded Inl]] assms show ?thesis by blast
  next
    case (Inr la)
    with Pair show ?thesis by (simp add: update_def Let_def)
  qed
qed

text \<open>
  For every input in which no target is the name of a property of \<^verbatim>\<open>Object.prototype\<close>,
  the grouping succeeds: every eligible element is a listener of the group of its
  target, the pass runs exactly one task for that target, and a task that finishes
  without an error calls each listener of the group once, with the same ARN, which the
  slots then hold.
\<close>

lemma deduplicated_resolution:
  assumes safe: "\<forall>layers \<in> set layersList. \<forall>a xs. array_of h layers = Some (a, xs)
             \<longrightarrow> (\<forall>x \<in> set xs. \<forall>t. fst (extractLayerName region x) = Some t
                    \<longrightarrow> t \<notin> set object_prototype_keys)"
    and u: "u = update region req h layersList"
    and l: "layers \<in> set layersList" and a: "array_of h layers = Some (a, xs)"
    and i: "i < length xs" and t: "fst (extractLayerName region (xs ! i)) = Some t"
  shows "\<exists>ls. (t, ls) \<in> set (groups u) \<and> (a, i) \<in> set ls
           \<and> filter (\<lambda>e. fst e = t) (tasks u) = [(t, processLayers req t ls)]
           \<and> (\<forall>r. processLayers req t ls = Some r \<and> thrown r = None
                 \<longrightarrow> (\<exists>v :: layer_version. writes r = map (\<lambda>l. (l, LayerVersionArn v)) ls
                        \<and> (\<forall>l \<in> set ls.
                              read_slot (store u) l = Some (JStr (LayerVersionArn v)))))"
proof -
  from groups_when_no_prototype_key [OF safe, of req] obtain d where
    ga: "group_all region h layersList [] = (Inr (groups u), d)"
    unfolding u by blast
  from group_all_complete [OF ga] l a i t obtain e where
    e: "e \<in> set (groups u)" "fst e = t" "(a, i) \<in> set (snd e)"
    by blast
  then have g: "(t, snd e) \<in> set (groups u)" by (metis prod.collapse)
  have wf: "wf_assoc region h (groups u)" unfolding u by (rule update_groups_wf)
  have st: "store u = apply_writes (all_writes (map snd (run_tasks req (groups u)))) h"
    unfolding u by (rule update_store)
  have "(t, processLayers req t (snd e)) \<in> set (tasks u)"
    using g unfolding u by (rule task_in_tasks)
  with distinct_task_names [of region req h layersList]
  have one: "filter (\<lambda>e. fst e = t) (tasks u) = [(t, processLayers req t (snd e))]"
    unfolding u by (rule one_task_for_key)
  have res: "\<exists>v :: layer_version. writes r = map (\<lambda>l. (l, LayerVersionArn v)) (snd e)
               \<and> (\<forall>l \<in> set (snd e). read_slot (store u) l = Some (JStr (LayerVersionArn v)))"
    if p: "processLayers req t (snd e) = Some r" and ok: "thrown r = None" for r
  proof -
    from processLayers_writes [OF p] ok obtain cs ds v where
      f: "fetch req t None None = Some (cs, ds, Inr (Some v))" and
      w: "writes r = map (\<lambda>l. (l, LayerVersionArn v)) (snd e)"
      by auto
    have rd: "\<forall>l \<in> set (snd e). read_slot (store u) l = Some (JStr (LayerVersionArn v))"
    proof
      fix l assume "l \<in> set (snd e)"
      then show "read_slot (store u) l = Some (JStr (LayerVersionArn v))"
        unfolding st
        using store_resolved_group [OF wf g, of l req r "LayerVersionArn v"] p w by simp
    qed
    show ?thesis by (rule exI [of _ v]) (simp add: w rd)
  qed
  from g e(3) one res show ?thesis by blast
qed

section \<open>The order of the writes\<close>

lemma writes_agree:
  assumes wf: "wf_assoc region h la"
    and w: "w \<in> set (all_writes (map snd (run_tasks req la)))"
    and w': "w' \<in> set (all_writes (map snd (run_tasks req la)))"
    and same: "fst w' = fst w"
  shows "snd w' = snd w"
proof -
  from w obtain e r where e: "e \<in> set la"
    and p: "processLayers req (fst e) (snd e) = Some r" and wr: "w \<in> set (writes r)"
    unfolding in_all_writes_run_tasks by blast
  from w' obtain e' r' where e': "e' \<in> set la"
    and p': "processLayers req (fst e') (snd e') = Some r'" and wr': "w' \<in> set (writes r')"
    unfolding in_all_writes_run_tasks by blast
  from write_slot_in_group [OF p wr] have s: "fst w \<in> set (snd e)" .
  from write_slot_in_group [OF p' wr'] same have s': "fst w \<in> set (snd e')" by simp
  from wf e e' s s' have "e' = e" by (rule wf_assoc_same_entry)
  with p p' have rr: "r' = r" by simp
  from processLayers_writes [OF p] wr obtain cs ds v where
    "fetch req (fst e) None None = Some (cs, ds, Inr (Some v))"
    "writes r = map (\<lambda>l. (l, LayerVersionArn v)) (snd e)" by auto
  with wr wr' rr show ?thesis by auto
qed

text \<open>
  The order in which the tasks write does not matter: two writes to one slot come from
  the same task and carry the same ARN, so every sequence made of the writes of the
  finished tasks leaves each slot with the same value.
\<close>

lemma store_schedule_independent:
  assumes wf: "wf_assoc region h la"
    and ws: "set ws = set (all_writes (map snd (run_tasks req la)))"
  shows "read_slot (apply_writes ws h) s
         = read_slot (apply_writes (all_writes (map snd (run_tasks req la))) h) s"
proof -
  let ?ws = "all_writes (map snd (run_tasks req la))"
  have valid: "\<forall>w \<in> set ?ws. read_slot h (fst w) \<noteq> None"
    using writes_valid [OF wf] by blast
  then have valid': "\<forall>w \<in> set ws. read_slot h (fst w) \<noteq> None"
    unfolding ws .
  show ?thesis
  proof (cases "s \<in> fst ` set ?ws")
    case False
    with valid have "read_slot (apply_writes ?ws h) s = read_slot h s"
      by (rule apply_writes_unwritten)
    moreover from False have "s \<notin> fst ` set ws" unfolding ws .
    with valid' have "read_slot (apply_writes ws h) s = read_slot h s"
      by (rule apply_writes_unwritten)
    ultimately show ?thesis by simp
  next
    case True
    then obtain w where w: "w \<in> set ?ws" and sw: "fst w = s" by auto
    have agree: "\<forall>w' \<in> set ?ws. fst w' = s \<longrightarrow> snd w' = snd w"
      using writes_agree [OF wf w] sw by simp
    with valid True have "read_slot (apply_writes ?ws h) s = Some (JStr (snd w))"
      by (rule apply_writes_written)
    moreover from True have "s \<in> fst ` set ws" unfolding ws .
    with valid' have "read_slot (apply_writes ws h) s = Some (JStr (snd w))"
      using agree unfolding ws [symmetric] by (rule apply_writes_written)
    ultimately show ?thesis by simp
  qed
qed

section \<open>The store when the promise settles\<close>





















lemma update_until_settled_Inr:
  assumes "group_all region h layersList [] = (Inr la, d)"
  shows "update_until_settled region req h layersList schedule
         = \<lparr>at_settled = settled_of (pass_tasks (await_all req schedule
                \<lparr>pass_store = h, pass_tasks = map start (object_entries la)\<rparr>)),
            at_store = pass_store (await_all req schedule
                \<lparr>pass_store = h, pass_tasks = map start (object_entries la)\<rparr>),
            at_tasks = pass_tasks (await_all req schedule
                \<lparr>pass_store = h, pass_tasks = map start (object_entries la)\<rparr>)\<rparr>"
  using assms by (simp add: update_until_settled_def Let_def)




lemma entries_example:
  "object_entries [(foo_target, xs), (''bar'', ys)] = [(foo_target, xs), (''bar'', ys)]"
  by (simp add: object_entries_def is_array_index_def foo_target_def radix_digit_def
        digit_of_def)

lemma mixed_bar: "mixed_provider ''bar'' m = Inr empty_page"
  by (simp add: mixed_provider_def)

lemma mixed_foo_first:
  "mixed_provider foo_target None
   = Inr \<lparr>LayerVersions = [\<lparr>Version = 1, LayerVersionArn = ''A1''\<rparr>,
                            \<lparr>Version = 5, LayerVersionArn = ''A5''\<rparr>],
          NextMarker = Some ''m1''\<rparr>"
  by (simp add: mixed_provider_def foo_target_def two_page_provider_def two_pages_def)

lemma mixed_foo_second:
  "mixed_provider foo_target (Some ''m1'')
   = Inr \<lparr>LayerVersions = [\<lparr>Version = 3, LayerVersionArn = ''A3''\<rparr>], NextMarker = None\<rparr>"
  by (simp add: mixed_provider_def foo_target_def two_page_provider_def two_pages_def)

lemmas run_example =
  update_until_settled_Inr [OF group_all_example] entries_example start_def settled_of_def
  step_def resume_def mixed_bar mixed_foo_first mixed_foo_second empty_page_def
  pick_def opt_val_def Let_def


lemma foo_first_eval:
  "map task_status (at_tasks foo_first)
     = [Finished, Threw (Error ''Lambda layer bar has no version available.'')]
   \<and> map task_listeners (at_tasks foo_first) = [[(0, 0), (1, 0)], [(0, 2)]]
   \<and> map task_layerName (at_tasks foo_first) = [foo_target, ''bar'']"
  by (simp add: foo_first_def run_example)




end
